theory Spec2Isabelle
  imports Main "HOL-Library.AList"
begin

section \<open>JavaScript values\<close>

text \<open>
  The development follows \<^verbatim>\<open>src/index.ts\<close> of redoubt: the class \<^verbatim>\<open>Server\<close>,
  \<^verbatim>\<open>enableDestroy\<close> and \<^verbatim>\<open>createDefaultOptions\<close>. Every \<^verbatim>\<open>throw\<close> and every rejected
  promise carries an \<^verbatim>\<open>Error\<close> object; a promise is pending, resolved or rejected.
  A port is a JavaScript number, modelled by a natural number, and \<^verbatim>\<open>number | null\<close> by an option.
\<close>

datatype error = Error string

datatype 'a promise = Pending | Resolved 'a | Rejected error

text \<open>\<^verbatim>\<open>String(n)\<close> for a number that is a natural number: its decimal digits.\<close>

fun num_str :: "nat \<Rightarrow> string" where
  "num_str n = (if n < 10 then [''0123456789'' ! n]
                else num_str (n div 10) @ [''0123456789'' ! (n mod 10)])"

declare num_str.simps [simp del]

text \<open>String concatenation with \<^verbatim>\<open>null\<close> and with \<^verbatim>\<open>undefined\<close>.\<close>

definition port_str :: "nat option \<Rightarrow> string" where
  "port_str p = (case p of None \<Rightarrow> ''null'' | Some n \<Rightarrow> num_str n)"

definition undef_str :: "string option \<Rightarrow> string" where
  "undef_str x = (case x of None \<Rightarrow> ''undefined'' | Some v \<Rightarrow> v)"

definition undef_num_str :: "nat option \<Rightarrow> string" where
  "undef_num_str x = (case x of None \<Rightarrow> ''undefined'' | Some n \<Rightarrow> num_str n)"

section \<open>Options\<close>

text \<open>
  \<^verbatim>\<open>IOptions\<close> and \<^verbatim>\<open>Partial<IOptions>\<close>. In the partial record \<open>None\<close> is \<^verbatim>\<open>undefined\<close>
  (the property is absent). The fields \<^verbatim>\<open>staticFiles\<close> and \<^verbatim>\<open>debug\<close> may also be \<^verbatim>\<open>null\<close>,
  which is the inner \<open>None\<close>. A debug function is either the module's \<^verbatim>\<open>defaultDebug\<close> or a
  function of the caller, which is opaque and identified by a number.
\<close>

datatype ssl_mode = SslNone | LetsEncrypt
  | Manual (key: string) (cert: string) (allowUnsigned: bool)

datatype debug_fn = DefaultDebug | UserDebug nat

record static_files =
  sf_from :: string
  sf_serve :: string

record ioptions =
  name :: string
  domains :: "string list"
  cookieSecret :: string
  webmasterMail :: string
  isDevelopment :: bool
  ssl :: ssl_mode
  letsEncryptCertDirectory :: string
  agreeGreenlockTos :: bool
  staticFiles :: "static_files option"
  maxPayloadSize :: int
  debug :: "debug_fn option"

record partial_options =
  p_name :: "string option"
  p_domains :: "string list option"
  p_cookieSecret :: "string option"
  p_webmasterMail :: "string option"
  p_isDevelopment :: "bool option"
  p_ssl :: "ssl_mode option"
  p_letsEncryptCertDirectory :: "string option"
  p_agreeGreenlockTos :: "bool option"
  p_staticFiles :: "static_files option option"
  p_maxPayloadSize :: "int option"
  p_debug :: "debug_fn option option"

definition or_default :: "'a option \<Rightarrow> 'a \<Rightarrow> 'a" where
  "or_default x d = (case x of None \<Rightarrow> d | Some v \<Rightarrow> v)"

definition createDefaultOptions :: "partial_options \<Rightarrow> error + ioptions" where
  "createDefaultOptions p =
    (case p_name p of None \<Rightarrow> Inl (Error ''name is required.'') | Some n \<Rightarrow>
    (case p_domains p of None \<Rightarrow> Inl (Error ''domains is required.'') | Some ds \<Rightarrow>
    (case p_cookieSecret p of None \<Rightarrow> Inl (Error ''cookieSecret is required.'') | Some c \<Rightarrow>
    (case p_webmasterMail p of None \<Rightarrow> Inl (Error ''webmasterMail is required.'') | Some w \<Rightarrow>
     Inr \<lparr> name = n, domains = ds, cookieSecret = c, webmasterMail = w,
           isDevelopment = or_default (p_isDevelopment p) False,
           ssl = or_default (p_ssl p) LetsEncrypt,
           letsEncryptCertDirectory = or_default (p_letsEncryptCertDirectory p) ''./.certs/'',
           agreeGreenlockTos = or_default (p_agreeGreenlockTos p) False,
           staticFiles = or_default (p_staticFiles p) None,
           maxPayloadSize = or_default (p_maxPayloadSize p) (100 * 1024),
           debug = or_default (p_debug p) (Some DefaultDebug) \<rparr>))))"

section \<open>Objects of the process\<close>

text \<open>
  What the program does to the outside is recorded in a trace: calls of \<^verbatim>\<open>console.log\<close> and
  of the caller's debug function, emitted events, and the calls of \<^verbatim>\<open>listen\<close>, \<^verbatim>\<open>close\<close>
  and \<^verbatim>\<open>destroy\<close> on server and socket objects; also the \<^verbatim>\<open>error\<close> events that server
  objects emit, which nothing of the program handles.
\<close>

datatype arg = Str string | Port "nat option" | Options ioptions

datatype obs =
    ConsoleLog "arg list"
  | DebugCall nat string "arg list"
  | Emit string
  | ListenCall nat
  | CloseCall nat
  | SocketDestroy nat
  | ErrorEvent nat error

text \<open>The second argument of \<^verbatim>\<open>console.log\<close> in \<^verbatim>\<open>defaultDebug\<close>: the ten bytes that the
  string literal has in the source file (hexadecimal EF A3 BF, C3 BC, C3 A8, E2 88 9E), and
  a space.\<close>

definition castle :: string where
  "castle = [CHR 0xEF, CHR 0xA3, CHR 0xBF, CHR 0xC3, CHR 0xBC, CHR 0xC3, CHR 0xA8,
             CHR 0xE2, CHR 0x88, CHR 0x9E, CHR '' '']"

fun debug_obs :: "debug_fn \<Rightarrow> string \<Rightarrow> arg list \<Rightarrow> obs" where
  "debug_obs DefaultDebug level args = ConsoleLog (Str (''['' @ level @ '']'') # Str castle # args)"
| "debug_obs (UserDebug f) level args = DebugCall f level args"

text \<open>
  The objects returned by \<^verbatim>\<open>greenlockOptions()\<close> and \<^verbatim>\<open>spdyOptions()\<close>, and the four
  kinds of server that \<^verbatim>\<open>startListening\<close> creates, each with the arguments of its
  \<^verbatim>\<open>listen\<close> call.
\<close>

record greenlock_options =
  agreeTos :: bool
  version :: string
  acme_server :: string
  email :: string
  approveDomains :: "string list"
  configDir :: string
  gl_debug :: bool
  communityMember :: bool
  telemetry :: bool

record spdy_options =
  spdy_key :: string
  spdy_cert :: string

definition greenlockOptions :: "ioptions \<Rightarrow> greenlock_options" where
  "greenlockOptions opts =
    \<lparr> agreeTos = agreeGreenlockTos opts,
      version = ''draft-11'',
      acme_server = (if isDevelopment opts
                     then ''https://acme-staging-v02.api.letsencrypt.org/directory''
                     else ''https://acme-v02.api.letsencrypt.org/directory''),
      email = webmasterMail opts,
      approveDomains = domains opts,
      configDir = letsEncryptCertDirectory opts,
      gl_debug = (debug opts \<noteq> None),
      communityMember = False,
      telemetry = False \<rparr>"

definition spdyOptions :: "ioptions \<Rightarrow> spdy_options" where
  "spdyOptions opts =
    \<lparr> spdy_key = (case ssl opts of Manual k c a \<Rightarrow> k | _ \<Rightarrow> []),
      spdy_cert = (case ssl opts of Manual k c a \<Rightarrow> c | _ \<Rightarrow> []) \<rparr>"

datatype listener =
    RedirectListener nat
  | GreenlockListener greenlock_options "nat option" "nat option"
  | AppListener nat
  | SpdyListener spdy_options "nat option"

text \<open>
  A server object as \<^verbatim>\<open>enableDestroy\<close> returns it. \<open>connections\<close> is the object of that
  name in the closure of \<^verbatim>\<open>enableDestroy\<close>: socket by key, in insertion order. The
  other fields are the state that Node keeps for the server: whether its \<^verbatim>\<open>listen\<close> has
  succeeded (\<open>bound\<close>: the event \<^verbatim>\<open>listening\<close> has been emitted) or has failed (\<open>failed\<close>:
  the event \<^verbatim>\<open>error\<close> has been emitted), whether \<^verbatim>\<open>close\<close> has been called on it, what it
  was doing when \<^verbatim>\<open>close\<close> was called (\<open>listening_at_close\<close>, see \<open>node_close\<close>), and the
  sockets it has accepted that are not closed yet.
\<close>

record srv =
  listener :: listener
  connections :: "(string \<times> nat) list"
  bound :: bool
  failed :: bool
  closed :: bool
  listening_at_close :: "bool option"
  open_sockets :: "nat list"

definition enableDestroy :: "listener \<Rightarrow> srv" where
  "enableDestroy l =
    \<lparr> listener = l, connections = [], bound = False, failed = False, closed = False,
      listening_at_close = None, open_sockets = [] \<rparr>"

definition running :: "srv \<Rightarrow> bool" where
  "running v = (bound v \<and> \<not> closed v)"

text \<open>
  A socket: \<open>Destroyed\<close> when \<^verbatim>\<open>destroy()\<close> has been called on it and its \<^verbatim>\<open>close\<close> event
  is still to come. \<open>accepted_by\<close> is the server object that emitted it.
\<close>

datatype sock_status = Open | Destroyed | Closed

record socket =
  remoteAddress :: "string option"
  remotePort :: "nat option"
  status :: sock_status
  accepted_by :: nat

definition conn_key :: "socket \<Rightarrow> string" where
  "conn_key conn = undef_str (remoteAddress conn) @ '':'' @ undef_num_str (remotePort conn)"

section \<open>Promises\<close>

text \<open>
  \<^verbatim>\<open>Promise.all\<close>: called on promises of which some are settled, it rejects with the first
  rejected one in the order of the list and resolves when all are resolved. While it is
  pending, the first promise that rejects settles it.
\<close>

fun first_rejected :: "'a promise list \<Rightarrow> error option" where
  "first_rejected [] = None"
| "first_rejected (Rejected e # ps) = Some e"
| "first_rejected (p # ps) = first_rejected ps"

fun resolved_values :: "'a promise list \<Rightarrow> 'a list option" where
  "resolved_values [] = Some []"
| "resolved_values (Resolved v # ps) =
     (case resolved_values ps of None \<Rightarrow> None | Some vs \<Rightarrow> Some (v # vs))"
| "resolved_values (p # ps) = None"

definition promise_all :: "'a promise list \<Rightarrow> 'a list promise" where
  "promise_all ps =
    (case first_rejected ps of Some e \<Rightarrow> Rejected e
     | None \<Rightarrow> (case resolved_values ps of Some vs \<Rightarrow> Resolved vs | None \<Rightarrow> Pending))"

definition on_settled :: "'a promise \<Rightarrow> 'a promise list \<Rightarrow> 'a list promise \<Rightarrow> 'a list promise" where
  "on_settled p ps agg =
    (if agg \<noteq> Pending then agg
     else (case p of Rejected e \<Rightarrow> Rejected e
           | _ \<Rightarrow> (case resolved_values ps of Some vs \<Rightarrow> Resolved vs | None \<Rightarrow> Pending)))"

text \<open>
  One call of \<^verbatim>\<open>startListening\<close>: its promises \<^verbatim>\<open>main\<close> and \<^verbatim>\<open>fallback\<close>, the server
  object whose \<^verbatim>\<open>listen\<close> was given the callback that settles each (none when the promise
  was made without a \<^verbatim>\<open>listen\<close> call), and the promise that the async function returns.
  One call of \<^verbatim>\<open>close\<close>: the array \<^verbatim>\<open>promises\<close>, the \<^verbatim>\<open>srv\<close> of each, and the promise
  returned.
\<close>

record listen_op =
  main :: "nat option promise"
  main_srv :: "nat option"
  fallback :: "nat option promise"
  fallback_srv :: "nat option"
  listen_result :: "nat list promise"

record close_op =
  srvs :: "nat list"
  promises :: "nat promise list"
  close_result :: "nat list promise"

section \<open>The server and the process around it\<close>

text \<open>
  The fields of \<^verbatim>\<open>Server\<close> (\<open>server\<close> is \<^verbatim>\<open>_server\<close>, a list of references into \<open>heap\<close>),
  and the process: server objects and sockets by reference, the calls of \<^verbatim>\<open>listen\<close> and
  \<^verbatim>\<open>close\<close> made so far, \<^verbatim>\<open>process.env.NODE_TLS_REJECT_UNAUTHORIZED\<close>, and the trace.
\<close>

record system =
  options :: ioptions
  server :: "nat list"
  portHttp :: "nat option"
  portHttps :: "nat option"
  heap :: "srv list"
  sockets :: "socket list"
  listens :: "listen_op list"
  closes :: "close_op list"
  NODE_TLS_REJECT_UNAUTHORIZED :: "string option"
  trace :: "obs list"

definition emitEvent :: "string \<Rightarrow> system \<Rightarrow> system" where
  "emitEvent event s = s\<lparr>trace := trace s @ [Emit event]\<rparr>"

text \<open>\<^verbatim>\<open>this._options.debug && this._options.debug(level, ...args)\<close>\<close>

definition call_debug :: "string \<Rightarrow> arg list \<Rightarrow> system \<Rightarrow> system" where
  "call_debug level args s =
    (case debug (options s) of None \<Rightarrow> s
     | Some f \<Rightarrow> s\<lparr>trace := trace s @ [debug_obs f level args]\<rparr>)"

text \<open>
  The constructor. \<^verbatim>\<open>express()\<close> and \<^verbatim>\<open>basicSetup\<close> configure the application that the
  main listener serves; the application is opaque here.
\<close>

definition initial :: "ioptions \<Rightarrow> system" where
  "initial opts =
    \<lparr> options = opts, server = [], portHttp = None, portHttps = None,
      heap = [], sockets = [], listens = [], closes = [],
      NODE_TLS_REJECT_UNAUTHORIZED = None, trace = [] \<rparr>"

definition new_Server :: "partial_options \<Rightarrow> error + system" where
  "new_Server p =
    (case createDefaultOptions p of Inl e \<Rightarrow> Inl e
     | Inr opts \<Rightarrow> Inr (call_debug ''debug'' [Str ''Options'', Options opts] (initial opts)))"

section \<open>close\<close>

text \<open>
  Node's \<^verbatim>\<open>server.close(cb)\<close> stops the server accepting. It will call \<^verbatim>\<open>cb\<close> with an error
  exactly when the server is not listening at that moment: \<open>listening_at_close\<close> becomes
  \<open>Some True\<close> when it is listening, \<open>Some False\<close> when its \<^verbatim>\<open>listen\<close> has failed or \<^verbatim>\<open>close\<close>
  was called on it before, and \<open>None\<close> when the outcome of its \<^verbatim>\<open>listen\<close> is not known yet
  (then either is possible).
  \<^verbatim>\<open>socket.destroy()\<close> closes an open socket abruptly. \<open>destroy\<close> is the function that
  \<^verbatim>\<open>enableDestroy\<close> installs: \<^verbatim>\<open>server.close(cb)\<close>, then \<^verbatim>\<open>destroy()\<close> on every socket of
  \<open>connections\<close>.
\<close>

definition node_close :: "srv \<Rightarrow> srv" where
  "node_close v =
    v\<lparr>listening_at_close := (if running v then Some True
                                else if closed v \<or> failed v then Some False else None),
      closed := True\<rparr>"

definition server_close :: "nat \<Rightarrow> system \<Rightarrow> system" where
  "server_close h s =
    s\<lparr>heap := (heap s)[h := node_close (heap s ! h)],
      trace := trace s @ [CloseCall h]\<rparr>"

definition socket_destroy :: "nat \<Rightarrow> system \<Rightarrow> system" where
  "socket_destroy c s =
    s\<lparr>sockets := (if status (sockets s ! c) = Open
                    then (sockets s)[c := (sockets s ! c)\<lparr>status := Destroyed\<rparr>]
                    else sockets s),
      trace := trace s @ [SocketDestroy c]\<rparr>"

definition destroy :: "nat \<Rightarrow> system \<Rightarrow> system" where
  "destroy h s = fold socket_destroy (map snd (connections (heap s ! h))) (server_close h s)"

text \<open>
  \<^verbatim>\<open>close(now)\<close> up to its \<^verbatim>\<open>await\<close>. Every object of \<^verbatim>\<open>_server\<close> went through
  \<^verbatim>\<open>enableDestroy\<close>, so \<^verbatim>\<open>srv.destroy\<close> is defined and \<^verbatim>\<open>now && srv.destroy\<close> is \<^verbatim>\<open>now\<close>.
  The promise returned is the last element of \<open>closes\<close>.
\<close>

fun close_loop :: "bool \<Rightarrow> nat list \<Rightarrow> system \<Rightarrow> system" where
  "close_loop now [] s = s"
| "close_loop now (h # hs) s =
     close_loop now hs (if now then destroy h s else server_close h s)"

definition close :: "bool \<Rightarrow> system \<Rightarrow> system" where
  "close now s =
    (let s1 = s\<lparr>portHttp := None, portHttps := None\<rparr>;
         s2 = close_loop now (server s1) s1;
         ps = map (\<lambda>h. Pending) (server s1)
     in s2\<lparr>server := [],
           closes := closes s2 @
             [\<lparr>srvs = server s1, promises = ps, close_result = promise_all ps\<rparr>]\<rparr>)"

section \<open>listen\<close>

text \<open>
  \<^verbatim>\<open>this._server.push(enableDestroy(x.listen(..., cb)))\<close> for a new server \<^verbatim>\<open>x\<close>. The calls
  that create \<^verbatim>\<open>x\<close> and the call of \<^verbatim>\<open>listen\<close> are taken to return: the ports are valid port
  numbers and the key and certificate are ones that the TLS library accepts. (If one of
  these calls threw, the promise under construction would be rejected with the exception
  and nothing would be pushed.)
\<close>

definition push_listener :: "listener \<Rightarrow> system \<Rightarrow> system" where
  "push_listener l s =
    s\<lparr>heap := heap s @ [enableDestroy l],
      server := server s @ [length (heap s)],
      trace := trace s @ [ListenCall (length (heap s))]\<rparr>"

definition upd_listen :: "nat \<Rightarrow> (listen_op \<Rightarrow> listen_op) \<Rightarrow> system \<Rightarrow> system" where
  "upd_listen k f s = s\<lparr>listens := (listens s)[k := f (listens s ! k)]\<rparr>"

definition start_fallback :: "nat \<Rightarrow> system \<Rightarrow> system" where
  "start_fallback k s =
    (case portHttp s of
       None \<Rightarrow> upd_listen k (\<lambda>op. op\<lparr>fallback := Resolved (portHttp s), fallback_srv := None\<rparr>) s
     | Some p \<Rightarrow>
        if ssl (options s) \<noteq> LetsEncrypt \<and> ssl (options s) \<noteq> SslNone
        then upd_listen k (\<lambda>op. op\<lparr>fallback := Pending, fallback_srv := Some (length (heap s))\<rparr>)
               (push_listener (RedirectListener p) s)
        else upd_listen k (\<lambda>op. op\<lparr>fallback := Resolved (portHttp s), fallback_srv := None\<rparr>) s)"

definition trust_unsigned :: "system \<Rightarrow> system" where
  "trust_unsigned s = s\<lparr>NODE_TLS_REJECT_UNAUTHORIZED := Some ''0''\<rparr>"

definition start_main :: "nat \<Rightarrow> system \<Rightarrow> system" where
  "start_main k s =
    (case ssl (options s) of
       LetsEncrypt \<Rightarrow>
        (let s1 = (if isDevelopment (options s) then trust_unsigned s else s)
         in upd_listen k (\<lambda>op. op\<lparr>main := Pending, main_srv := Some (length (heap s1))\<rparr>)
              (push_listener
                (GreenlockListener (greenlockOptions (options s1)) (portHttp s1) (portHttps s1)) s1))
     | SslNone \<Rightarrow>
        (case portHttp s of
           None \<Rightarrow> upd_listen k (\<lambda>op. op\<lparr>main :=
                     Rejected (Error ''Cannot listen on HTTP without HTTP port.''),
                     main_srv := None\<rparr>) s
         | Some p \<Rightarrow> upd_listen k (\<lambda>op. op\<lparr>main := Pending, main_srv := Some (length (heap s))\<rparr>)
                      (push_listener (AppListener p) s))
     | Manual k' c a \<Rightarrow>
        (let s1 = (if a \<or> isDevelopment (options s) then trust_unsigned s else s)
         in upd_listen k (\<lambda>op. op\<lparr>main := Pending, main_srv := Some (length (heap s1))\<rparr>)
              (push_listener (SpdyListener (spdyOptions (options s1)) (portHttps s1)) s1)))"

text \<open>
  What follows \<^verbatim>\<open>Promise.all([main, fallback])\<close> once it is settled: the callback of
  \<^verbatim>\<open>then\<close> and \<^verbatim>\<open>return this._server\<close>, or the rejection of the promise returned.
\<close>

definition finish_listen :: "nat \<Rightarrow> nat option list promise \<Rightarrow> system \<Rightarrow> system" where
  "finish_listen k agg s =
    (case agg of
       Pending \<Rightarrow> s
     | Rejected e \<Rightarrow> upd_listen k (\<lambda>op. op\<lparr>listen_result := Rejected e\<rparr>) s
     | Resolved vs \<Rightarrow>
        (let s1 = call_debug ''info'' [Str ''Listening'', Port (portHttps s), Port (portHttp s)] s;
             s2 = emitEvent ''listen'' s1
         in upd_listen k (\<lambda>op. op\<lparr>listen_result := Resolved (server s2)\<rparr>) s2))"

text \<open>\<^verbatim>\<open>startListening\<close> up to its \<^verbatim>\<open>await\<close>; the call is the last element of \<open>listens\<close>.\<close>

definition startListening :: "system \<Rightarrow> system" where
  "startListening s =
    (let s1 = call_debug ''info'' [Str ''Going to listen'', Port (portHttps s), Port (portHttp s)] s;
         s2 = emitEvent ''beforeListen'' s1;
         k = length (listens s2);
         s3 = s2\<lparr>listens := listens s2 @
                [\<lparr>main = Pending, main_srv = None, fallback = Pending, fallback_srv = None,
                  listen_result = Pending\<rparr>]\<rparr>;
         s4 = start_fallback k s3;
         s5 = start_main k s4
     in finish_listen k (promise_all [main (listens s5 ! k), fallback (listens s5 ! k)]) s5)"

definition listen :: "nat \<Rightarrow> nat option \<Rightarrow> system \<Rightarrow> system" where
  "listen https http s = startListening (s\<lparr>portHttp := http, portHttps := Some https\<rparr>)"

section \<open>Callbacks and events\<close>

text \<open>
  The callbacks of the program run when Node invokes them. A run is a list of events: calls
  of \<^verbatim>\<open>listen\<close> and \<^verbatim>\<open>close\<close> by the user of the class, and the callbacks: the one given
  to \<^verbatim>\<open>listen\<close> for \<^verbatim>\<open>main\<close> or \<^verbatim>\<open>fallback\<close> of a call of \<^verbatim>\<open>startListening\<close>, the one given
  to \<^verbatim>\<open>close\<close> or \<^verbatim>\<open>destroy\<close> for a promise of a call of \<^verbatim>\<open>close\<close>, each with the \<^verbatim>\<open>err\<close>
  that Node passes, the \<^verbatim>\<open>connection\<close> event of a server with a new socket, the \<^verbatim>\<open>close\<close>
  event of a socket, and the \<^verbatim>\<open>error\<close> event of a server whose \<^verbatim>\<open>listen\<close> fails.
\<close>

datatype role = Main | Fallback

datatype event =
    Call_listen nat "nat option"
  | Call_close bool
  | ListenCallback nat role "error option"
  | CloseCallback nat nat "error option"
  | Connection nat "string option" "nat option"
  | SocketClose nat
  | ServerError nat error

definition srv_of :: "role \<Rightarrow> listen_op \<Rightarrow> nat option" where
  "srv_of r op = (case r of Main \<Rightarrow> main_srv op | Fallback \<Rightarrow> fallback_srv op)"

definition promise_of :: "role \<Rightarrow> listen_op \<Rightarrow> nat option promise" where
  "promise_of r op = (case r of Main \<Rightarrow> main op | Fallback \<Rightarrow> fallback op)"

text \<open>The value that the callback resolves with: \<^verbatim>\<open>this._portHttp\<close> for the fallback and
  for the main server of mode \<^verbatim>\<open>"none"\<close>, \<^verbatim>\<open>this._portHttps\<close> otherwise.\<close>

definition resolved_port :: "role \<Rightarrow> system \<Rightarrow> nat option" where
  "resolved_port r s =
    (case r of Fallback \<Rightarrow> portHttp s
     | Main \<Rightarrow> if ssl (options s) = SslNone then portHttp s else portHttps s)"

text \<open>\<^verbatim>\<open>(err) => err ? reject(err) : resolve(port)\<close>, and what awaits the promise.\<close>

definition listen_callback :: "nat \<Rightarrow> role \<Rightarrow> error option \<Rightarrow> system \<Rightarrow> system" where
  "listen_callback k r err s =
    (case srv_of r (listens s ! k) of
       None \<Rightarrow> s
     | Some h \<Rightarrow>
        (let p = (case err of Some e \<Rightarrow> Rejected e | None \<Rightarrow> Resolved (resolved_port r s));
             s1 = (if err = None then s\<lparr>heap := (heap s)[h := (heap s ! h)\<lparr>bound := True\<rparr>]\<rparr>
                   else s);
             s2 = upd_listen k (\<lambda>op. case r of Main \<Rightarrow> op\<lparr>main := p\<rparr>
                                            | Fallback \<Rightarrow> op\<lparr>fallback := p\<rparr>) s1;
             op = listens s2 ! k
         in if listen_result op \<noteq> Pending then s2
            else finish_listen k (on_settled p [main op, fallback op] Pending) s2))"

text \<open>\<^verbatim>\<open>(err) => err ? reject(err) : resolve(srv)\<close>, and \<^verbatim>\<open>Promise.all(promises)\<close>.\<close>

definition close_callback :: "nat \<Rightarrow> nat \<Rightarrow> error option \<Rightarrow> system \<Rightarrow> system" where
  "close_callback k i err s =
    (let op = closes s ! k;
         p = (case err of Some e \<Rightarrow> Rejected e | None \<Rightarrow> Resolved (srvs op ! i));
         ps = (promises op)[i := p]
     in s\<lparr>closes := (closes s)[k := op\<lparr>promises := ps,
                                         close_result := on_settled p ps (close_result op)\<rparr>]\<rparr>)"

text \<open>The handler of \<^verbatim>\<open>connection\<close> that \<^verbatim>\<open>enableDestroy\<close> installs, for a new socket.\<close>

definition connection :: "nat \<Rightarrow> string option \<Rightarrow> nat option \<Rightarrow> system \<Rightarrow> system" where
  "connection h addr port s =
    (let conn = \<lparr>remoteAddress = addr, remotePort = port, status = Open, accepted_by = h\<rparr>;
         c = length (sockets s);
         v = heap s ! h
     in s\<lparr>sockets := sockets s @ [conn],
          heap := (heap s)[h := v\<lparr>connections := AList.update (conn_key conn) c (connections v),
                                  open_sockets := open_sockets v @ [c]\<rparr>]\<rparr>)"

text \<open>The handler of \<^verbatim>\<open>close\<close> that was installed on the socket: \<^verbatim>\<open>delete connections[key]\<close>.\<close>

definition socket_close :: "nat \<Rightarrow> system \<Rightarrow> system" where
  "socket_close c s =
    (let conn = sockets s ! c;
         h = accepted_by conn;
         v = heap s ! h
     in s\<lparr>sockets := (sockets s)[c := conn\<lparr>status := Closed\<rparr>],
          heap := (heap s)[h := v\<lparr>connections := AList.delete (conn_key conn) (connections v),
                                  open_sockets := removeAll c (open_sockets v)\<rparr>]\<rparr>)"

text \<open>
  A server object emits \<^verbatim>\<open>error\<close> when its \<^verbatim>\<open>listen\<close> fails, for instance because the port
  is in use; the callback that was given to \<^verbatim>\<open>listen\<close> is then not called. The program
  installs no listener for that event on any server it creates, so nothing of the program
  runs. (Node throws an \<^verbatim>\<open>error\<close> event that has no listener as an uncaught exception; the
  events after a \<open>ServerError\<close> are those of a process in which the caller of the class
  handles it.)
\<close>

definition server_error :: "nat \<Rightarrow> error \<Rightarrow> system \<Rightarrow> system" where
  "server_error h e s =
    s\<lparr>heap := (heap s)[h := (heap s ! h)\<lparr>failed := True\<rparr>],
      trace := trace s @ [ErrorEvent h e]\<rparr>"

definition not_running_error :: error where
  "not_running_error = Error ''Server is not running.''"

fun fire :: "event \<Rightarrow> system \<Rightarrow> system" where
  "fire (Call_listen https http) s = listen https http s"
| "fire (Call_close now) s = close now s"
| "fire (ListenCallback k r err) s = listen_callback k r err s"
| "fire (CloseCallback k i err) s = close_callback k i err s"
| "fire (Connection h addr port) s = connection h addr port s"
| "fire (SocketClose c) s = socket_close c s"
| "fire (ServerError h e) s = server_error h e s"

text \<open>
  When an event can happen. Node invokes a callback once, so its promise is pending.

  \<^item> The callback given to \<^verbatim>\<open>listen\<close> is a listener of the event \<^verbatim>\<open>listening\<close>: Node calls it
    without an argument, and only for a server whose \<^verbatim>\<open>listen\<close> has not failed and on which
    \<^verbatim>\<open>close\<close> has not been called. A failure of \<^verbatim>\<open>listen\<close> is the event \<^verbatim>\<open>error\<close> instead.
    (\<^verbatim>\<open>listen\<close> of an Express 4 application hands its arguments to \<^verbatim>\<open>listen\<close> of a Node
    server.)
  \<^item> The callback of \<^verbatim>\<open>close\<close> is called when the server has no open socket left; with the
    error \<open>not_running_error\<close> when the server was not listening at the call of \<^verbatim>\<open>close\<close>,
    and without an error when it was.
  \<^item> \<^verbatim>\<open>connection\<close> is emitted only for a server that is listening and on which \<^verbatim>\<open>close\<close>
    has not been called, and \<^verbatim>\<open>close\<close> on a socket once.
\<close>

fun enabled :: "event \<Rightarrow> system \<Rightarrow> bool" where
  "enabled (Call_listen https http) s = True"
| "enabled (Call_close now) s = True"
| "enabled (ListenCallback k r err) s =
    (err = None \<and> k < length (listens s) \<and> promise_of r (listens s ! k) = Pending \<and>
     (case srv_of r (listens s ! k) of
        None \<Rightarrow> False
      | Some h \<Rightarrow> h < length (heap s) \<and> \<not> failed (heap s ! h) \<and> \<not> closed (heap s ! h)))"
| "enabled (CloseCallback k i err) s =
    (k < length (closes s) \<and> i < length (promises (closes s ! k)) \<and>
     i < length (srvs (closes s ! k)) \<and> promises (closes s ! k) ! i = Pending \<and>
     srvs (closes s ! k) ! i < length (heap s) \<and>
     open_sockets (heap s ! (srvs (closes s ! k) ! i)) = [] \<and>
     (case err of
        None \<Rightarrow> listening_at_close (heap s ! (srvs (closes s ! k) ! i)) \<noteq> Some False
      | Some e \<Rightarrow> e = not_running_error \<and>
                  listening_at_close (heap s ! (srvs (closes s ! k) ! i)) \<noteq> Some True))"
| "enabled (Connection h addr port) s = (h < length (heap s) \<and> running (heap s ! h))"
| "enabled (SocketClose c) s =
    (c < length (sockets s) \<and> status (sockets s ! c) \<noteq> Closed \<and>
     accepted_by (sockets s ! c) < length (heap s))"
| "enabled (ServerError h e) s =
    (h < length (heap s) \<and> \<not> bound (heap s ! h) \<and> \<not> failed (heap s ! h))"

fun run :: "event list \<Rightarrow> system \<Rightarrow> system option" where
  "run [] s = Some s"
| "run (e # es) s = (if enabled e s then run es (fire e s) else None)"

section \<open>The redirect of the fallback server\<close>

text \<open>
  \<^verbatim>\<open>fallbackServer.get("*", (req, res) => res.redirect(...))\<close>: an Express application
  whose only route is for \<^verbatim>\<open>GET\<close> on every path. Express serves \<^verbatim>\<open>HEAD\<close> by the route
  of \<^verbatim>\<open>GET\<close> and answers 404 where no route matches. The handler reads
  \<^verbatim>\<open>this._portHttps\<close> when the request arrives.
\<close>

datatype http_method = GET | HEAD | POST | PUT | DELETE | PATCH

record request =
  verb :: http_method
  host :: "string option"
  url :: string

datatype response = Redirect string | NotFound | FromApp

definition redirect_handler :: "system \<Rightarrow> request \<Rightarrow> response" where
  "redirect_handler s req =
    Redirect (''https://'' @ undef_str (host req) @ '':'' @ port_str (portHttps s) @ url req)"

definition get_star :: "(request \<Rightarrow> response) \<Rightarrow> request \<Rightarrow> response" where
  "get_star handler req =
    (case verb req of GET \<Rightarrow> handler req | HEAD \<Rightarrow> handler req | _ \<Rightarrow> NotFound)"

text \<open>The answer of server object \<open>h\<close> to a request. The main application is opaque.\<close>

definition respond :: "system \<Rightarrow> nat \<Rightarrow> request \<Rightarrow> response" where
  "respond s h req =
    (case listener (heap s ! h) of
       RedirectListener p \<Rightarrow> get_star (redirect_handler s) req
     | _ \<Rightarrow> FromApp)"

section \<open>Histories\<close>

text \<open>
  The events of a run that are callbacks and events of Node, not calls by the user; the
  errors that Node passed, in order, to the callbacks of one call of \<^verbatim>\<open>close\<close> and of one
  call of \<^verbatim>\<open>listen\<close>.
\<close>

fun is_callback :: "event \<Rightarrow> bool" where
  "is_callback (Call_listen https http) = False"
| "is_callback (Call_close now) = False"
| "is_callback ev = True"

fun close_errors :: "nat \<Rightarrow> event list \<Rightarrow> error list" where
  "close_errors k [] = []"
| "close_errors k (CloseCallback k' i (Some e) # evs) =
     (if k' = k then e # close_errors k evs else close_errors k evs)"
| "close_errors k (ev # evs) = close_errors k evs"

fun listen_errors :: "nat \<Rightarrow> event list \<Rightarrow> error list" where
  "listen_errors k [] = []"
| "listen_errors k (ListenCallback k' r (Some e) # evs) =
     (if k' = k then e # listen_errors k evs else listen_errors k evs)"
| "listen_errors k (ev # evs) = listen_errors k evs"

text \<open>Whether an event is a callback of call \<open>k\<close> of \<^verbatim>\<open>close\<close>, or of \<^verbatim>\<open>listen\<close>.\<close>

fun close_cb_of :: "nat \<Rightarrow> event \<Rightarrow> bool" where
  "close_cb_of k (CloseCallback k' i err) = (k' = k)"
| "close_cb_of k ev = False"

fun listen_cb_of :: "nat \<Rightarrow> event \<Rightarrow> bool" where
  "listen_cb_of k (ListenCallback k' r err) = (k' = k)"
| "listen_cb_of k ev = False"

section \<open>Example configurations\<close>

text \<open>
  The configuration of \<^verbatim>\<open>example/index.js\<close> with debugging switched off (certificates
  given by the caller), the same without \<^verbatim>\<open>ssl\<close> and \<^verbatim>\<open>debug\<close> (Let's Encrypt, default debug
  function), and one with \<^verbatim>\<open>ssl: "none"\<close>.
\<close>

definition manual_config :: partial_options where
  "manual_config =
    \<lparr> p_name = Some ''my-redoubt-server'', p_domains = Some [''localhost''],
      p_cookieSecret = Some ''maggots-at-the-party'',
      p_webmasterMail = Some ''sonstiges@patrick-sachs.de'',
      p_isDevelopment = Some True, p_ssl = Some (Manual ''key'' ''cert'' True),
      p_letsEncryptCertDirectory = None, p_agreeGreenlockTos = None, p_staticFiles = None,
      p_maxPayloadSize = None, p_debug = Some None \<rparr>"

definition default_config :: partial_options where
  "default_config = manual_config\<lparr>p_isDevelopment := None, p_ssl := None, p_debug := None\<rparr>"

definition plain_config :: partial_options where
  "plain_config = manual_config\<lparr>p_isDevelopment := None, p_ssl := Some SslNone\<rparr>"

definition manual_options :: ioptions where
  "manual_options =
    \<lparr> name = ''my-redoubt-server'', domains = [''localhost''],
      cookieSecret = ''maggots-at-the-party'', webmasterMail = ''sonstiges@patrick-sachs.de'',
      isDevelopment = True, ssl = Manual ''key'' ''cert'' True,
      letsEncryptCertDirectory = ''./.certs/'', agreeGreenlockTos = False,
      staticFiles = None, maxPayloadSize = 102400, debug = None \<rparr>"

section \<open>Auxiliary notions\<close>

text \<open>The trace of one call of the debug function, if there is one.\<close>

definition debug_call :: "debug_fn option \<Rightarrow> string \<Rightarrow> arg list \<Rightarrow> obs list" where
  "debug_call d level args = (case d of None \<Rightarrow> [] | Some f \<Rightarrow> [debug_obs f level args])"

text \<open>
  The state of call \<open>k\<close> of \<^verbatim>\<open>close\<close> on the server objects \<open>hs\<close> after the events
  \<open>evs\<close>: a promise is pending until its callback has come, a resolved one holds its server
  object, and the promise returned is rejected with the first error that came, resolved
  when all are resolved, and pending otherwise.
\<close>

definition close_inv :: "nat \<Rightarrow> nat list \<Rightarrow> event list \<Rightarrow> system \<Rightarrow> bool" where
  "close_inv k hs evs t \<longleftrightarrow>
    k < length (closes t) \<and> srvs (closes t ! k) = hs \<and>
    length (promises (closes t ! k)) = length hs \<and>
    (\<forall>i<length hs. promises (closes t ! k) ! i = Pending \<longleftrightarrow>
        (\<forall>err. CloseCallback k i err \<notin> set evs)) \<and>
    (\<forall>i<length hs. \<forall>v. promises (closes t ! k) ! i = Resolved v \<longrightarrow> v = hs ! i) \<and>
    (\<forall>i<length hs. CloseCallback k i None \<in> set evs \<longrightarrow>
        promises (closes t ! k) ! i = Resolved (hs ! i)) \<and>
    close_result (closes t ! k) =
      (case close_errors k evs of e # es \<Rightarrow> Rejected e
       | [] \<Rightarrow> (case resolved_values (promises (closes t ! k)) of
                  Some vs \<Rightarrow> Resolved vs | None \<Rightarrow> Pending))"

definition plain_options :: ioptions where
  "plain_options = manual_options\<lparr>isDevelopment := False, ssl := SslNone\<rparr>"

text \<open>The promise returned by call \<open>k\<close> of \<^verbatim>\<open>close\<close>, and of \<^verbatim>\<open>listen\<close>.\<close>

definition close_promise :: "nat \<Rightarrow> system \<Rightarrow> nat list promise" where
  "close_promise k s = close_result (closes s ! k)"

definition listen_promise :: "nat \<Rightarrow> system \<Rightarrow> nat list promise" where
  "listen_promise k s = listen_result (listens s ! k)"

text \<open>
  The server of \<open>manual_config\<close> after \<^verbatim>\<open>listen(8443, 8080)\<close> and the two callbacks of
  \<^verbatim>\<open>listen\<close> without error.
\<close>

definition listening_example :: system where
  "listening_example =
    \<lparr> options = manual_options, server = [0, 1], portHttp = Some 8080, portHttps = Some 8443,
      heap = [\<lparr>listener = RedirectListener 8080, connections = [], bound = True,
                failed = False, closed = False, listening_at_close = None,
                open_sockets = []\<rparr>,
              \<lparr>listener = SpdyListener \<lparr>spdy_key = ''key'', spdy_cert = ''cert''\<rparr> (Some 8443),
                connections = [], bound = True, failed = False, closed = False,
                listening_at_close = None, open_sockets = []\<rparr>],
      sockets = [],
      listens = [\<lparr>main = Resolved (Some 8443), main_srv = Some 1,
                  fallback = Resolved (Some 8080), fallback_srv = Some 0,
                  listen_result = Resolved [0, 1]\<rparr>],
      closes = [], NODE_TLS_REJECT_UNAUTHORIZED = Some ''0'',
      trace = [Emit ''beforeListen'', ListenCall 0, ListenCall 1, Emit ''listen''] \<rparr>"

text \<open>
  The servers that one call of \<^verbatim>\<open>listen\<close> creates, in the order in which they are pushed,
  and the record of the call, for a heap that holds \<open>n\<close> objects before.
\<close>

definition new_listeners :: "ioptions \<Rightarrow> nat \<Rightarrow> nat option \<Rightarrow> listener list" where
  "new_listeners opts https http =
    (case ssl opts of
       LetsEncrypt \<Rightarrow> [GreenlockListener (greenlockOptions opts) http (Some https)]
     | SslNone \<Rightarrow> (case http of None \<Rightarrow> [] | Some p \<Rightarrow> [AppListener p])
     | Manual k c a \<Rightarrow>
        (case http of None \<Rightarrow> [] | Some p \<Rightarrow> [RedirectListener p]) @
        [SpdyListener (spdyOptions opts) (Some https)])"

definition new_listen_op :: "ioptions \<Rightarrow> nat \<Rightarrow> nat option \<Rightarrow> listen_op" where
  "new_listen_op opts n http =
    (case ssl opts of
       LetsEncrypt \<Rightarrow>
        \<lparr>main = Pending, main_srv = Some n, fallback = Resolved http, fallback_srv = None,
          listen_result = Pending\<rparr>
     | SslNone \<Rightarrow>
        (case http of
           None \<Rightarrow>
            \<lparr>main = Rejected (Error ''Cannot listen on HTTP without HTTP port.''),
              main_srv = None, fallback = Resolved None, fallback_srv = None,
              listen_result = Rejected (Error ''Cannot listen on HTTP without HTTP port.'')\<rparr>
         | Some p \<Rightarrow>
            \<lparr>main = Pending, main_srv = Some n, fallback = Resolved http, fallback_srv = None,
              listen_result = Pending\<rparr>)
     | Manual k c a \<Rightarrow>
        (case http of
           None \<Rightarrow>
            \<lparr>main = Pending, main_srv = Some n, fallback = Resolved None, fallback_srv = None,
              listen_result = Pending\<rparr>
         | Some p \<Rightarrow>
            \<lparr>main = Pending, main_srv = Some (Suc n), fallback = Pending, fallback_srv = Some n,
              listen_result = Pending\<rparr>))"

text \<open>Whether \<^verbatim>\<open>startListening\<close> sets \<^verbatim>\<open>NODE_TLS_REJECT_UNAUTHORIZED\<close>.\<close>

definition trusts_unsigned :: "ioptions \<Rightarrow> bool" where
  "trusts_unsigned opts =
    (case ssl opts of
       LetsEncrypt \<Rightarrow> isDevelopment opts
     | SslNone \<Rightarrow> False
     | Manual k c a \<Rightarrow> a \<or> isDevelopment opts)"

text \<open>
  Whether the callback of \<^verbatim>\<open>listen\<close> for promise \<open>r\<close> of call \<open>k\<close>, invoked with \<open>err\<close>,
  completes \<^verbatim>\<open>Promise.all([main, fallback])\<close>: there is no error, the promise returned is
  pending, and the other promise is resolved.
\<close>

fun other :: "role \<Rightarrow> role" where
  "other Main = Fallback"
| "other Fallback = Main"

fun is_resolved :: "'a promise \<Rightarrow> bool" where
  "is_resolved (Resolved v) = True"
| "is_resolved p = False"

definition completes :: "nat \<Rightarrow> role \<Rightarrow> error option \<Rightarrow> system \<Rightarrow> bool" where
  "completes k r err s \<longleftrightarrow>
    err = None \<and> srv_of r (listens s ! k) \<noteq> None \<and>
    listen_result (listens s ! k) = Pending \<and>
    is_resolved (promise_of (other r) (listens s ! k))"

text \<open>The calls of a debug function in a trace.\<close>

fun is_debug_obs :: "obs \<Rightarrow> bool" where
  "is_debug_obs (ConsoleLog args) = True"
| "is_debug_obs (DebugCall f level args) = True"
| "is_debug_obs ob = False"

text \<open>
  The state of call \<open>k\<close> of \<^verbatim>\<open>listen\<close>, whose record was \<open>op0\<close> when the call returned,
  after the events \<open>evs\<close>: a promise that awaits a callback is pending until the callback
  has come and resolved exactly if it came without error; the promise returned, unless
  settled from the start, is rejected with the first error that came, resolved when both
  promises are resolved, and pending otherwise.
\<close>

definition listen_inv :: "nat \<Rightarrow> listen_op \<Rightarrow> event list \<Rightarrow> system \<Rightarrow> bool" where
  "listen_inv k op0 evs t \<longleftrightarrow>
    k < length (listens t) \<and>
    (\<forall>r. srv_of r (listens t ! k) = srv_of r op0) \<and>
    (\<forall>r. srv_of r op0 = None \<longrightarrow> promise_of r (listens t ! k) = promise_of r op0) \<and>
    (\<forall>r. srv_of r op0 \<noteq> None \<longrightarrow>
       (promise_of r (listens t ! k) = Pending \<longleftrightarrow> (\<forall>err. ListenCallback k r err \<notin> set evs))) \<and>
    (\<forall>r. srv_of r op0 \<noteq> None \<longrightarrow>
       (is_resolved (promise_of r (listens t ! k)) \<longleftrightarrow> ListenCallback k r None \<in> set evs)) \<and>
    (listen_result op0 \<noteq> Pending \<longrightarrow> listen_result (listens t ! k) = listen_result op0) \<and>
    (listen_result op0 = Pending \<longrightarrow> listen_errors k evs \<noteq> [] \<longrightarrow>
       listen_result (listens t ! k) = Rejected (hd (listen_errors k evs))) \<and>
    (listen_result op0 = Pending \<longrightarrow> listen_errors k evs = [] \<longrightarrow>
       (if is_resolved (main (listens t ! k)) \<and> is_resolved (fallback (listens t ! k))
        then is_resolved (listen_result (listens t ! k))
        else listen_result (listens t ! k) = Pending))"

text \<open>The record of a call of \<^verbatim>\<open>listen\<close> when the call returns.\<close>

definition fresh_op :: "listen_op \<Rightarrow> bool" where
  "fresh_op op0 \<longleftrightarrow>
    (\<forall>r. srv_of r op0 \<noteq> None \<longrightarrow> promise_of r op0 = Pending) \<and>
    (listen_result op0 = Pending \<longrightarrow> main op0 = Pending) \<and>
    \<not> is_resolved (listen_result op0)"

text \<open>
  An event that is neither a further call of \<^verbatim>\<open>listen\<close> nor a callback of another call
  of \<^verbatim>\<open>listen\<close> than call \<open>k\<close>.
\<close>

fun only_listen :: "nat \<Rightarrow> event \<Rightarrow> bool" where
  "only_listen k (Call_listen https http) = False"
| "only_listen k (ListenCallback k' r err) = (k' = k)"
| "only_listen k ev = True"

text \<open>The options that \<^verbatim>\<open>createDefaultOptions\<close> makes of \<open>default_config\<close>.\<close>

definition default_options :: ioptions where
  "default_options =
    manual_options\<lparr>isDevelopment := False, ssl := LetsEncrypt, debug := Some DefaultDebug\<rparr>"

text \<open>What the loop of \<^verbatim>\<open>close\<close> over the server objects \<open>hs\<close> adds to the trace.\<close>

fun close_obs :: "bool \<Rightarrow> srv list \<Rightarrow> nat list \<Rightarrow> obs list" where
  "close_obs now hp [] = []"
| "close_obs now hp (h # hs) =
     (if now then CloseCall h # map SocketDestroy (map snd (connections (hp ! h)))
      else [CloseCall h]) @ close_obs now hp hs"

text \<open>
  What holds of the registries in every state that a server reaches (shown below): the
  references in \<^verbatim>\<open>_server\<close> are server objects, and an entry of \<open>connections\<close> of a
  server object holds a socket that this server accepted, under the key of that socket,
  and no key twice; the socket is among the open sockets of the server and its \<^verbatim>\<open>close\<close> event has not come.
\<close>

definition entry_ok :: "system \<Rightarrow> nat \<Rightarrow> string \<times> nat \<Rightarrow> bool" where
  "entry_ok s h kc \<longleftrightarrow>
    snd kc < length (sockets s) \<and>
    conn_key (sockets s ! snd kc) = fst kc \<and>
    accepted_by (sockets s ! snd kc) = h \<and>
    snd kc \<in> set (open_sockets (heap s ! h)) \<and>
    status (sockets s ! snd kc) \<noteq> Closed"

definition well_formed :: "system \<Rightarrow> bool" where
  "well_formed s \<longleftrightarrow>
    (\<forall>h\<in>set (server s). h < length (heap s)) \<and>
    (\<forall>h<length (heap s). distinct (map fst (connections (heap s ! h)))) \<and>
    (\<forall>h<length (heap s). \<forall>kc\<in>set (connections (heap s ! h)). entry_ok s h kc)"

text \<open>
  While call \<open>k\<close> of \<^verbatim>\<open>close\<close> on the server objects \<open>hs\<close> is awaited: \<^verbatim>\<open>close\<close> has been
  called on each of them, and one whose promise is resolved has no open socket and an empty
  registry.
\<close>

definition closing_inv :: "nat \<Rightarrow> nat list \<Rightarrow> system \<Rightarrow> bool" where
  "closing_inv k hs t \<longleftrightarrow>
    well_formed t \<and> k < length (closes t) \<and> srvs (closes t ! k) = hs \<and>
    length (promises (closes t ! k)) = length hs \<and>
    (\<forall>h\<in>set hs. h < length (heap t) \<longrightarrow> closed (heap t ! h)) \<and>
    (\<forall>i<length hs. is_resolved (promises (closes t ! k) ! i) \<longrightarrow>
       hs ! i < length (heap t) \<and>
       connections (heap t ! (hs ! i)) = [] \<and> open_sockets (heap t ! (hs ! i)) = [])"

section \<open>Effects of the operations on each field\<close>

lemma push_listener_simps [simp]:
  "options (push_listener l s) = options s"
  "server (push_listener l s) = server s @ [length (heap s)]"
  "portHttp (push_listener l s) = portHttp s"
  "portHttps (push_listener l s) = portHttps s"
  "heap (push_listener l s) = heap s @ [enableDestroy l]"
  "sockets (push_listener l s) = sockets s"
  "listens (push_listener l s) = listens s"
  "closes (push_listener l s) = closes s"
  "NODE_TLS_REJECT_UNAUTHORIZED (push_listener l s) = NODE_TLS_REJECT_UNAUTHORIZED s"
  "trace (push_listener l s) = trace s @ [ListenCall (length (heap s))]"
  by (simp_all add: push_listener_def)

lemma upd_listen_simps [simp]:
  "options (upd_listen k f s) = options s"
  "server (upd_listen k f s) = server s"
  "portHttp (upd_listen k f s) = portHttp s"
  "portHttps (upd_listen k f s) = portHttps s"
  "heap (upd_listen k f s) = heap s"
  "sockets (upd_listen k f s) = sockets s"
  "listens (upd_listen k f s) = (listens s)[k := f (listens s ! k)]"
  "closes (upd_listen k f s) = closes s"
  "NODE_TLS_REJECT_UNAUTHORIZED (upd_listen k f s) = NODE_TLS_REJECT_UNAUTHORIZED s"
  "trace (upd_listen k f s) = trace s"
  by (simp_all add: upd_listen_def)

lemma emitEvent_simps [simp]:
  "options (emitEvent ev s) = options s"
  "server (emitEvent ev s) = server s"
  "portHttp (emitEvent ev s) = portHttp s"
  "portHttps (emitEvent ev s) = portHttps s"
  "heap (emitEvent ev s) = heap s"
  "sockets (emitEvent ev s) = sockets s"
  "listens (emitEvent ev s) = listens s"
  "closes (emitEvent ev s) = closes s"
  "NODE_TLS_REJECT_UNAUTHORIZED (emitEvent ev s) = NODE_TLS_REJECT_UNAUTHORIZED s"
  "trace (emitEvent ev s) = trace s @ [Emit ev]"
  by (simp_all add: emitEvent_def)

lemma call_debug_simps [simp]:
  "options (call_debug lv as s) = options s"
  "server (call_debug lv as s) = server s"
  "portHttp (call_debug lv as s) = portHttp s"
  "portHttps (call_debug lv as s) = portHttps s"
  "heap (call_debug lv as s) = heap s"
  "sockets (call_debug lv as s) = sockets s"
  "listens (call_debug lv as s) = listens s"
  "closes (call_debug lv as s) = closes s"
  "NODE_TLS_REJECT_UNAUTHORIZED (call_debug lv as s) = NODE_TLS_REJECT_UNAUTHORIZED s"
  "trace (call_debug lv as s) = trace s @ debug_call (debug (options s)) lv as"
  by (simp_all add: call_debug_def debug_call_def split: option.splits)

lemma trust_unsigned_simps [simp]:
  "options (trust_unsigned s) = options s"
  "server (trust_unsigned s) = server s"
  "portHttp (trust_unsigned s) = portHttp s"
  "portHttps (trust_unsigned s) = portHttps s"
  "heap (trust_unsigned s) = heap s"
  "sockets (trust_unsigned s) = sockets s"
  "listens (trust_unsigned s) = listens s"
  "closes (trust_unsigned s) = closes s"
  "NODE_TLS_REJECT_UNAUTHORIZED (trust_unsigned s) = Some ''0''"
  "trace (trust_unsigned s) = trace s"
  by (simp_all add: trust_unsigned_def)

lemma start_fallback_none:
  "ssl (options s) = SslNone \<Longrightarrow>
   start_fallback k s =
     upd_listen k (\<lambda>op. op\<lparr>fallback := Resolved (portHttp s), fallback_srv := None\<rparr>) s"
  by (simp add: start_fallback_def split: option.split)

lemma start_main_none_Some:
  "ssl (options s) = SslNone \<Longrightarrow> portHttp s = Some p \<Longrightarrow>
   start_main k s =
     upd_listen k (\<lambda>op. op\<lparr>main := Pending, main_srv := Some (length (heap s))\<rparr>)
       (push_listener (AppListener p) s)"
  by (simp add: start_main_def)

lemma start_main_none_None:
  "ssl (options s) = SslNone \<Longrightarrow> portHttp s = None \<Longrightarrow>
   start_main k s =
     upd_listen k (\<lambda>op. op\<lparr>main := Rejected (Error ''Cannot listen on HTTP without HTTP port.''),
        main_srv := None\<rparr>) s"
  by (simp add: start_main_def)

lemma node_close_simps [simp]:
  "listener (node_close v) = listener v"
  "connections (node_close v) = connections v"
  "bound (node_close v) = bound v"
  "failed (node_close v) = failed v"
  "closed (node_close v) = True"
  "open_sockets (node_close v) = open_sockets v"
  by (simp_all add: node_close_def)

lemma server_error_simps [simp]:
  "options (server_error h e s) = options s"
  "server (server_error h e s) = server s"
  "portHttp (server_error h e s) = portHttp s"
  "portHttps (server_error h e s) = portHttps s"
  "heap (server_error h e s) = (heap s)[h := (heap s ! h)\<lparr>failed := True\<rparr>]"
  "sockets (server_error h e s) = sockets s"
  "listens (server_error h e s) = listens s"
  "closes (server_error h e s) = closes s"
  "NODE_TLS_REJECT_UNAUTHORIZED (server_error h e s) = NODE_TLS_REJECT_UNAUTHORIZED s"
  "trace (server_error h e s) = trace s @ [ErrorEvent h e]"
  by (simp_all add: server_error_def)

lemma server_error_length [simp]:
  "length (heap (server_error h e s)) = length (heap s)"
  by (simp add: server_error_def)

lemma server_close_simps [simp]:
  "options (server_close h s) = options s"
  "server (server_close h s) = server s"
  "portHttp (server_close h s) = portHttp s"
  "portHttps (server_close h s) = portHttps s"
  "heap (server_close h s) = (heap s)[h := node_close (heap s ! h)]"
  "sockets (server_close h s) = sockets s"
  "listens (server_close h s) = listens s"
  "closes (server_close h s) = closes s"
  "NODE_TLS_REJECT_UNAUTHORIZED (server_close h s) = NODE_TLS_REJECT_UNAUTHORIZED s"
  "trace (server_close h s) = trace s @ [CloseCall h]"
  by (simp_all add: server_close_def)

lemma socket_destroy_simps [simp]:
  "options (socket_destroy c s) = options s"
  "server (socket_destroy c s) = server s"
  "portHttp (socket_destroy c s) = portHttp s"
  "portHttps (socket_destroy c s) = portHttps s"
  "heap (socket_destroy c s) = heap s"
  "listens (socket_destroy c s) = listens s"
  "closes (socket_destroy c s) = closes s"
  "NODE_TLS_REJECT_UNAUTHORIZED (socket_destroy c s) = NODE_TLS_REJECT_UNAUTHORIZED s"
  "trace (socket_destroy c s) = trace s @ [SocketDestroy c]"
  by (simp_all add: socket_destroy_def)

lemma fold_socket_destroy_simps [simp]:
  "options (fold socket_destroy cs s) = options s"
  "server (fold socket_destroy cs s) = server s"
  "portHttp (fold socket_destroy cs s) = portHttp s"
  "portHttps (fold socket_destroy cs s) = portHttps s"
  "heap (fold socket_destroy cs s) = heap s"
  "listens (fold socket_destroy cs s) = listens s"
  "closes (fold socket_destroy cs s) = closes s"
  "NODE_TLS_REJECT_UNAUTHORIZED (fold socket_destroy cs s) = NODE_TLS_REJECT_UNAUTHORIZED s"
  "trace (fold socket_destroy cs s) = trace s @ map SocketDestroy cs"
  by (induction cs arbitrary: s; simp)+

lemma destroy_simps [simp]:
  "options (destroy h s) = options s"
  "server (destroy h s) = server s"
  "portHttp (destroy h s) = portHttp s"
  "portHttps (destroy h s) = portHttps s"
  "heap (destroy h s) = (heap s)[h := node_close (heap s ! h)]"
  "listens (destroy h s) = listens s"
  "closes (destroy h s) = closes s"
  "NODE_TLS_REJECT_UNAUTHORIZED (destroy h s) = NODE_TLS_REJECT_UNAUTHORIZED s"
  "trace (destroy h s) = trace s @ CloseCall h # map SocketDestroy (map snd (connections (heap s ! h)))"
  by (simp_all add: destroy_def)

lemma close_loop_frame [simp]:
  "options (close_loop now hs s) = options s"
  "server (close_loop now hs s) = server s"
  "portHttp (close_loop now hs s) = portHttp s"
  "portHttps (close_loop now hs s) = portHttps s"
  "listens (close_loop now hs s) = listens s"
  "closes (close_loop now hs s) = closes s"
  "NODE_TLS_REJECT_UNAUTHORIZED (close_loop now hs s) = NODE_TLS_REJECT_UNAUTHORIZED s"
  "length (heap (close_loop now hs s)) = length (heap s)"
  by (induction hs arbitrary: s; simp)+

lemma close_simps [simp]:
  "options (close now s) = options s"
  "server (close now s) = []"
  "portHttp (close now s) = None"
  "portHttps (close now s) = None"
  "listens (close now s) = listens s"
  "closes (close now s) = closes s @
     [\<lparr>srvs = server s, promises = map (\<lambda>h. Pending) (server s),
       close_result = promise_all (map (\<lambda>h. Pending) (server s))\<rparr>]"
  "NODE_TLS_REJECT_UNAUTHORIZED (close now s) = NODE_TLS_REJECT_UNAUTHORIZED s"
  "length (heap (close now s)) = length (heap s)"
  by (simp_all add: close_def Let_def)

lemma run_snoc:
  "run (evs @ [e]) s = Some s' \<longleftrightarrow> (\<exists>t. run evs s = Some t \<and> enabled e t \<and> s' = fire e t)"
  by (induction evs arbitrary: s) auto

lemma close_errors_snoc:
  "close_errors k (evs @ [ev]) =
     close_errors k evs @
       (case ev of CloseCallback k' i (Some e) \<Rightarrow> if k' = k then [e] else [] | _ \<Rightarrow> [])"
  by (induction k evs rule: close_errors.induct) (auto split: event.splits option.splits)

lemma first_rejected_Pending [simp]: "first_rejected (map (\<lambda>h. Pending) hs) = None"
  by (induction hs) simp_all

lemma promise_all_Pending [simp]:
  "promise_all (map (\<lambda>h. Pending) hs) = (if hs = [] then Resolved [] else Pending)"
  by (cases hs) (simp_all add: promise_all_def)

lemma resolved_values_Some_iff:
  "resolved_values ps = Some vs \<longleftrightarrow> (length vs = length ps \<and> (\<forall>i<length ps. ps ! i = Resolved (vs ! i)))"
proof (induction ps arbitrary: vs)
  case Nil
  show ?case by auto
next
  case (Cons p ps)
  show ?case
  proof (cases p)
    case Pending
    then show ?thesis by auto
  next
    case (Rejected e)
    then show ?thesis by auto
  next
    case (Resolved v)
    show ?thesis
    proof (cases vs)
      case Nil
      then show ?thesis using Resolved by (auto split: option.splits)
    next
      case (Cons w ws)
      have "(\<forall>i<Suc (length ps). (Resolved v # ps) ! i = Resolved ((w # ws) ! i)) \<longleftrightarrow>
            (v = w \<and> (\<forall>i<length ps. ps ! i = Resolved (ws ! i)))"
        by (auto simp: nth_Cons split: nat.splits)
      with Cons.IH [of ws] Cons Resolved show ?thesis by (auto split: option.splits)
    qed
  qed
qed

lemma close_callback_simps [simp]:
  "options (close_callback k i err s) = options s"
  "server (close_callback k i err s) = server s"
  "portHttp (close_callback k i err s) = portHttp s"
  "portHttps (close_callback k i err s) = portHttps s"
  "heap (close_callback k i err s) = heap s"
  "sockets (close_callback k i err s) = sockets s"
  "listens (close_callback k i err s) = listens s"
  "NODE_TLS_REJECT_UNAUTHORIZED (close_callback k i err s) = NODE_TLS_REJECT_UNAUTHORIZED s"
  "trace (close_callback k i err s) = trace s"
  "length (closes (close_callback k i err s)) = length (closes s)"
  by (simp_all add: close_callback_def Let_def)

lemma close_callback_other:
  "k' \<noteq> k \<Longrightarrow> closes (close_callback k' i err s) ! k = closes s ! k"
  by (simp add: close_callback_def Let_def)

lemma close_callback_same:
  "k < length (closes s) \<Longrightarrow>
   closes (close_callback k i err s) ! k =
     (closes s ! k)\<lparr>promises := (promises (closes s ! k))[i :=
         (case err of Some e \<Rightarrow> Rejected e | None \<Rightarrow> Resolved (srvs (closes s ! k) ! i))],
       close_result := on_settled
         (case err of Some e \<Rightarrow> Rejected e | None \<Rightarrow> Resolved (srvs (closes s ! k) ! i))
         ((promises (closes s ! k))[i :=
            (case err of Some e \<Rightarrow> Rejected e | None \<Rightarrow> Resolved (srvs (closes s ! k) ! i))])
         (close_result (closes s ! k))\<rparr>"
  by (simp add: close_callback_def Let_def)
lemma finish_listen_frame [simp]:
  "options (finish_listen k agg s) = options s"
  "server (finish_listen k agg s) = server s"
  "portHttp (finish_listen k agg s) = portHttp s"
  "portHttps (finish_listen k agg s) = portHttps s"
  "heap (finish_listen k agg s) = heap s"
  "sockets (finish_listen k agg s) = sockets s"
  "closes (finish_listen k agg s) = closes s"
  "NODE_TLS_REJECT_UNAUTHORIZED (finish_listen k agg s) = NODE_TLS_REJECT_UNAUTHORIZED s"
  "length (listens (finish_listen k agg s)) = length (listens s)"
  by (simp_all add: finish_listen_def Let_def split: promise.splits)

lemma start_fallback_frame [simp]:
  "options (start_fallback k s) = options s"
  "portHttp (start_fallback k s) = portHttp s"
  "portHttps (start_fallback k s) = portHttps s"
  "sockets (start_fallback k s) = sockets s"
  "closes (start_fallback k s) = closes s"
  "NODE_TLS_REJECT_UNAUTHORIZED (start_fallback k s) = NODE_TLS_REJECT_UNAUTHORIZED s"
  "length (listens (start_fallback k s)) = length (listens s)"
  by (simp_all add: start_fallback_def split: option.splits)

lemma start_main_frame [simp]:
  "options (start_main k s) = options s"
  "portHttp (start_main k s) = portHttp s"
  "portHttps (start_main k s) = portHttps s"
  "sockets (start_main k s) = sockets s"
  "closes (start_main k s) = closes s"
  "length (listens (start_main k s)) = length (listens s)"
  by (simp_all add: start_main_def Let_def split: option.splits ssl_mode.splits)

lemma startListening_frame [simp]:
  "options (startListening s) = options s"
  "portHttp (startListening s) = portHttp s"
  "portHttps (startListening s) = portHttps s"
  "sockets (startListening s) = sockets s"
  "closes (startListening s) = closes s"
  "length (listens (startListening s)) = Suc (length (listens s))"
  by (simp_all add: startListening_def Let_def)

lemma listen_frame [simp]:
  "options (listen https http s) = options s"
  "portHttp (listen https http s) = http"
  "portHttps (listen https http s) = Some https"
  "sockets (listen https http s) = sockets s"
  "closes (listen https http s) = closes s"
  "length (listens (listen https http s)) = Suc (length (listens s))"
  by (simp_all add: listen_def)

lemma listen_callback_frame [simp]:
  "options (listen_callback k r err s) = options s"
  "server (listen_callback k r err s) = server s"
  "portHttp (listen_callback k r err s) = portHttp s"
  "portHttps (listen_callback k r err s) = portHttps s"
  "sockets (listen_callback k r err s) = sockets s"
  "closes (listen_callback k r err s) = closes s"
  "NODE_TLS_REJECT_UNAUTHORIZED (listen_callback k r err s) = NODE_TLS_REJECT_UNAUTHORIZED s"
  "length (listens (listen_callback k r err s)) = length (listens s)"
  "length (heap (listen_callback k r err s)) = length (heap s)"
  by (simp_all add: listen_callback_def Let_def split: option.splits)

lemma connection_simps [simp]:
  "options (connection h a p s) = options s"
  "server (connection h a p s) = server s"
  "portHttp (connection h a p s) = portHttp s"
  "portHttps (connection h a p s) = portHttps s"
  "listens (connection h a p s) = listens s"
  "closes (connection h a p s) = closes s"
  "NODE_TLS_REJECT_UNAUTHORIZED (connection h a p s) = NODE_TLS_REJECT_UNAUTHORIZED s"
  "trace (connection h a p s) = trace s"
  "length (heap (connection h a p s)) = length (heap s)"
  "sockets (connection h a p s) =
     sockets s @ [\<lparr>remoteAddress = a, remotePort = p, status = Open, accepted_by = h\<rparr>]"
  by (simp_all add: connection_def Let_def)

lemma socket_close_simps [simp]:
  "options (socket_close c s) = options s"
  "server (socket_close c s) = server s"
  "portHttp (socket_close c s) = portHttp s"
  "portHttps (socket_close c s) = portHttps s"
  "listens (socket_close c s) = listens s"
  "closes (socket_close c s) = closes s"
  "NODE_TLS_REJECT_UNAUTHORIZED (socket_close c s) = NODE_TLS_REJECT_UNAUTHORIZED s"
  "trace (socket_close c s) = trace s"
  "length (heap (socket_close c s)) = length (heap s)"
  "sockets (socket_close c s) = (sockets s)[c := (sockets s ! c)\<lparr>status := Closed\<rparr>]"
  by (simp_all add: socket_close_def Let_def)

lemma fire_options [simp]: "options (fire ev s) = options s"
  by (cases ev) simp_all

lemma run_options: "run evs s = Some s' \<Longrightarrow> options s' = options s"
  by (induction evs arbitrary: s) (auto split: if_splits)
lemma fire_closes_length: "k < length (closes s) \<Longrightarrow> k < length (closes (fire ev s))"
  by (cases ev) simp_all

lemma fire_closes_other:
  "k < length (closes s) \<Longrightarrow> \<not> close_cb_of k ev \<Longrightarrow> closes (fire ev s) ! k = closes s ! k"
  by (cases ev) (simp_all add: nth_append close_callback_other)

lemma close_errors_other:
  "\<not> close_cb_of k ev \<Longrightarrow> close_errors k (evs @ [ev]) = close_errors k evs"
  by (cases ev) (simp_all add: close_errors_snoc split: option.splits)

lemma close_cb_mem_other:
  "\<not> close_cb_of k ev \<Longrightarrow>
   CloseCallback k i err \<in> set (evs @ [ev]) \<longleftrightarrow> CloseCallback k i err \<in> set evs"
  by (cases ev) auto

lemma resolved_values_Pending [simp]:
  "resolved_values (map (\<lambda>h. Pending) hs) = (if hs = [] then Some [] else None)"
  by (cases hs) simp_all

lemma resolved_values_nth:
  "resolved_values ps = Some vs \<Longrightarrow> i < length ps \<Longrightarrow> ps ! i = Resolved (vs ! i)"
  by (simp add: resolved_values_Some_iff)

lemma resolved_values_None:
  "i < length ps \<Longrightarrow> ps ! i = Pending \<Longrightarrow> resolved_values ps = None"
  by (cases "resolved_values ps") (auto dest: resolved_values_nth)

lemma resolved_values_None_Rejected:
  "i < length ps \<Longrightarrow> ps ! i = Rejected e \<Longrightarrow> resolved_values ps = None"
  by (cases "resolved_values ps") (auto dest: resolved_values_nth)


lemmas close_invD =
  close_inv_def [THEN iffD1, THEN conjunct1]
  close_inv_def [THEN iffD1, THEN conjunct2, THEN conjunct1]
  close_inv_def [THEN iffD1, THEN conjunct2, THEN conjunct2, THEN conjunct1]
  close_inv_def [THEN iffD1, THEN conjunct2, THEN conjunct2, THEN conjunct2, THEN conjunct1]
  close_inv_def [THEN iffD1, THEN conjunct2, THEN conjunct2, THEN conjunct2, THEN conjunct2,
    THEN conjunct1]
  close_inv_def [THEN iffD1, THEN conjunct2, THEN conjunct2, THEN conjunct2, THEN conjunct2,
    THEN conjunct2, THEN conjunct1]
  close_inv_def [THEN iffD1, THEN conjunct2, THEN conjunct2, THEN conjunct2, THEN conjunct2,
    THEN conjunct2, THEN conjunct2]

lemma close_inv_init:
  assumes "k < length (closes s1)"
    and "closes s1 ! k = \<lparr>srvs = hs, promises = map (\<lambda>h. Pending) hs,
                close_result = promise_all (map (\<lambda>h. Pending) hs)\<rparr>"
  shows "close_inv k hs [] s1"
  unfolding close_inv_def assms(2) using assms(1) by simp

lemma close_inv_other:
  assumes inv: "close_inv k hs evs t0" and neq: "\<not> close_cb_of k ev"
  shows "close_inv k hs (evs @ [ev]) (fire ev t0)"
proof -
  have k: "k < length (closes t0)" by (rule close_invD(1) [OF inv])
  have same: "closes (fire ev t0) ! k = closes t0 ! k"
    by (rule fire_closes_other [OF k neq])
  have klen: "k < length (closes (fire ev t0)) \<longleftrightarrow> k < length (closes t0)"
    using fire_closes_length [OF k] k by simp
  have errs: "close_errors k (evs @ [ev]) = close_errors k evs"
    by (rule close_errors_other [OF neq])
  have "close_inv k hs (evs @ [ev]) (fire ev t0) \<longleftrightarrow> close_inv k hs evs t0"
    unfolding close_inv_def same errs close_cb_mem_other [OF neq] klen by (rule refl)
  then show ?thesis using inv by (rule iffD2)
qed

lemma close_inv_callback:
  assumes inv: "close_inv k hs evs t0" and en: "enabled (CloseCallback k i err) t0"
  shows "close_inv k hs (evs @ [CloseCallback k i err]) (fire (CloseCallback k i err) t0)"
proof -
  let ?op = "closes t0 ! k"
  let ?ev = "CloseCallback k i err"
  let ?t = "fire ?ev t0"
  note D = close_invD [OF inv]
  from en have i: "i < length (promises ?op)" and pend: "promises ?op ! i = Pending"
    by simp_all
  have ih: "i < length hs" using i D(3) by simp
  define p where "p = (case err of Some e \<Rightarrow> Rejected e | None \<Rightarrow> Resolved (hs ! i))"
  define ps where "ps = (promises ?op)[i := p]"
  have new: "closes ?t ! k =
      ?op\<lparr>promises := ps, close_result := on_settled p ps (close_result ?op)\<rparr>"
    using close_callback_same [OF D(1), of i err] by (cases err) (simp_all add: ps_def p_def D(2))
  have n1: "srvs (closes ?t ! k) = hs" unfolding new by (simp add: D(2))
  have n2: "promises (closes ?t ! k) = ps" unfolding new by simp
  have n3: "close_result (closes ?t ! k) = on_settled p ps (close_result ?op)"
    unfolding new by simp
  have klen: "k < length (closes ?t)" by (simp add: D(1))
  have none_before: "CloseCallback k i err' \<notin> set evs" for err'
    using D(4) ih pend by blast
  have "resolved_values (promises ?op) = None"
    by (rule resolved_values_None [OF i pend])
  then have old_res: "close_result ?op =
      (case close_errors k evs of e # es \<Rightarrow> Rejected e | [] \<Rightarrow> Pending)"
    by (simp add: D(7) split: list.splits)
  have p_not_pending: "p \<noteq> Pending" by (simp add: p_def split: option.splits)
  have pi: "ps ! i = p" using i by (simp add: ps_def)
  have pj: "ps ! j = promises ?op ! j" if "j \<noteq> i" for j using that by (simp add: ps_def)
  have A1: "\<forall>j<length hs. ps ! j = Pending \<longleftrightarrow> (\<forall>err'. CloseCallback k j err' \<notin> set (evs @ [?ev]))"
  proof (intro allI impI)
    fix j assume j: "j < length hs"
    show "ps ! j = Pending \<longleftrightarrow> (\<forall>err'. CloseCallback k j err' \<notin> set (evs @ [?ev]))"
    proof (cases "j = i")
      case True
      then show ?thesis using pi p_not_pending by auto
    next
      case False
      have "promises ?op ! j = Pending \<longleftrightarrow> (\<forall>err'. CloseCallback k j err' \<notin> set evs)"
        using D(4) j by blast
      then show ?thesis using pj [OF False] False by auto
    qed
  qed
  have A2: "\<forall>j<length hs. \<forall>v. ps ! j = Resolved v \<longrightarrow> v = hs ! j"
  proof (intro allI impI)
    fix j v assume j: "j < length hs" and r: "ps ! j = Resolved v"
    show "v = hs ! j"
    proof (cases "j = i")
      case True
      then show ?thesis using pi r by (simp add: p_def split: option.splits)
    next
      case False
      then show ?thesis using pj [OF False] D(5) j r by simp
    qed
  qed
  have A3: "\<forall>j<length hs. CloseCallback k j None \<in> set (evs @ [?ev]) \<longrightarrow> ps ! j = Resolved (hs ! j)"
  proof (intro allI impI)
    fix j assume j: "j < length hs" and m: "CloseCallback k j None \<in> set (evs @ [?ev])"
    show "ps ! j = Resolved (hs ! j)"
    proof (cases "j = i")
      case True
      then have "err = None" using m none_before by auto
      then show ?thesis using pi True by (simp add: p_def)
    next
      case False
      then have "CloseCallback k j None \<in> set evs" using m by auto
      then show ?thesis using pj [OF False] D(6) j by simp
    qed
  qed
  have B: "on_settled p ps (close_result ?op) =
    (case close_errors k (evs @ [?ev]) of e # es \<Rightarrow> Rejected e
     | [] \<Rightarrow> (case resolved_values ps of Some vs \<Rightarrow> Resolved vs | None \<Rightarrow> Pending))"
  proof (cases err)
    case None
    then show ?thesis
      by (cases "close_errors k evs")
        (simp_all add: old_res on_settled_def p_def close_errors_snoc)
  next
    case (Some e)
    have "resolved_values ps = None"
      by (rule resolved_values_None_Rejected [of i _ e]) (simp_all add: ps_def p_def Some i)
    then show ?thesis
      by (cases "close_errors k evs")
        (simp_all add: old_res on_settled_def p_def close_errors_snoc Some)
  qed
  have len: "length ps = length hs" by (simp add: ps_def D(3))
  show ?thesis
    unfolding close_inv_def n1 n2 n3 B
    by (intro conjI klen len A1 A2 A3 refl)
qed

lemma close_run_inv:
  assumes "close_inv k hs [] s1"
  shows "run evs s1 = Some t \<Longrightarrow> close_inv k hs evs t"
proof (induction evs arbitrary: t rule: rev_induct)
  case Nil
  then show ?case using assms by simp
next
  case (snoc ev evs)
  from snoc.prems obtain t0 where t0: "run evs s1 = Some t0"
    and en: "enabled ev t0" and t: "t = fire ev t0"
    by (auto simp: run_snoc)
  note IH = snoc.IH [OF t0]
  show ?case
  proof (cases "close_cb_of k ev")
    case False
    then show ?thesis using close_inv_other [OF IH] t by simp
  next
    case True
    then obtain i err where "ev = CloseCallback k i err" by (cases ev) simp_all
    then show ?thesis using close_inv_callback [OF IH] en t by simp
  qed
qed
lemmas eval_defs = listen_def startListening_def start_fallback_def start_main_def
  finish_listen_def upd_listen_def push_listener_def emitEvent_def call_debug_def
  trust_unsigned_def promise_all_def close_def destroy_def server_close_def socket_destroy_def
  listen_callback_def close_callback_def connection_def socket_close_def on_settled_def
  srv_of_def promise_of_def resolved_port_def enableDestroy_def running_def conn_key_def
  initial_def spdyOptions_def greenlockOptions_def Let_def close_promise_def listen_promise_def
  server_error_def node_close_def not_running_error_def

lemma new_Server_manual_config: "new_Server manual_config = Inr (initial manual_options)"
  by (simp add: new_Server_def createDefaultOptions_def manual_config_def manual_options_def
      or_default_def call_debug_def initial_def)

lemma listening_example_run:
  "run [Call_listen 8443 (Some 8080), ListenCallback 0 Fallback None, ListenCallback 0 Main None]
     (initial manual_options) = Some listening_example"
  by (simp add: eval_defs manual_options_def listening_example_def)

section \<open>Construction\<close>

lemma createDefaultOptions_Inl:
  "(\<exists>e. createDefaultOptions p = Inl e) \<longleftrightarrow>
   (p_name p = None \<or> p_domains p = None \<or> p_cookieSecret p = None \<or> p_webmasterMail p = None)"
  by (auto simp: createDefaultOptions_def split: option.splits)

text \<open>
  C4. Constructing the server throws exactly when one of \<^verbatim>\<open>name\<close>, \<^verbatim>\<open>domains\<close>,
  \<^verbatim>\<open>cookieSecret\<close>, \<^verbatim>\<open>webmasterMail\<close> is absent; with the four present it returns a server,
  whatever the other fields are.
\<close>

theorem C4_construction_throws_iff_required_absent:
  "(\<exists>e. new_Server p = Inl e) \<longleftrightarrow>
   (p_name p = None \<or> p_domains p = None \<or> p_cookieSecret p = None \<or> p_webmasterMail p = None)"
proof -
  have "(\<exists>e. new_Server p = Inl e) \<longleftrightarrow> (\<exists>e. createDefaultOptions p = Inl e)"
    by (auto simp: new_Server_def split: sum.splits)
  then show ?thesis by (simp only: createDefaultOptions_Inl)
qed

theorem C4_witness:
  "(\<exists>e. new_Server (manual_config\<lparr>p_domains := None\<rparr>) = Inl e) \<and>
   \<not> (\<exists>e. new_Server manual_config = Inl e)"
  using C4_construction_throws_iff_required_absent [of manual_config]
    C4_construction_throws_iff_required_absent [of "manual_config\<lparr>p_domains := None\<rparr>"]
  by (simp add: manual_config_def)

section \<open>close\<close>

lemma fire_callback_frame:
  "is_callback ev \<Longrightarrow> server (fire ev s) = server s"
  "is_callback ev \<Longrightarrow> portHttp (fire ev s) = portHttp s"
  "is_callback ev \<Longrightarrow> portHttps (fire ev s) = portHttps s"
  by (cases ev; simp)+

lemma run_callbacks_frame:
  "run evs s = Some s' \<Longrightarrow> \<forall>ev\<in>set evs. is_callback ev \<Longrightarrow>
   server s' = server s \<and> portHttp s' = portHttp s \<and> portHttps s' = portHttps s"
  by (induction evs arbitrary: s) (auto split: if_splits simp: fire_callback_frame)

lemma close_inv_close:
  assumes "run evs (close now s) = Some s'"
  shows "close_inv (length (closes s)) (server s) evs s'"
proof -
  have "close_inv (length (closes s)) (server s) [] (close now s)"
    by (rule close_inv_init) simp_all
  then show ?thesis using assms by (rule close_run_inv)
qed

lemma close_inv_Resolved:
  assumes inv: "close_inv k hs evs t" and r: "close_result (closes t ! k) = Resolved vs"
  shows "vs = hs"
proof -
  note D = close_invD [OF inv]
  from r D(7) have rv: "resolved_values (promises (closes t ! k)) = Some vs"
    by (simp split: list.splits option.splits)
  then have len: "length vs = length hs"
    and nth: "\<And>i. i < length hs \<Longrightarrow> promises (closes t ! k) ! i = Resolved (vs ! i)"
    by (simp_all add: resolved_values_Some_iff D(3))
  show ?thesis
  proof (rule nth_equalityI)
    show "length vs = length hs" by (rule len)
  next
    fix i assume "i < length vs"
    then have i: "i < length hs" by (simp add: len)
    from D(5) i nth [OF i] show "vs ! i = hs ! i" by blast
  qed
qed

lemma close_inv_Rejected:
  assumes inv: "close_inv k hs evs t" and r: "close_result (closes t ! k) = Rejected e"
  shows "close_errors k evs \<noteq> [] \<and> e = hd (close_errors k evs)"
  using r close_invD(7) [OF inv] by (simp split: list.splits option.splits)

lemma close_inv_errors:
  assumes inv: "close_inv k hs evs t" and r: "close_errors k evs \<noteq> []"
  shows "close_result (closes t ! k) = Rejected (hd (close_errors k evs))"
  using r close_invD(7) [OF inv] by (simp split: list.splits)

lemma close_inv_all_closed:
  assumes inv: "close_inv k hs evs t" and r: "close_errors k evs = []"
    and a: "\<forall>i<length hs. CloseCallback k i None \<in> set evs"
  shows "close_result (closes t ! k) = Resolved hs"
proof -
  note D = close_invD [OF inv]
  have "\<forall>i<length (promises (closes t ! k)). promises (closes t ! k) ! i = Resolved (hs ! i)"
    using D(6) a by (simp add: D(3))
  then have "resolved_values (promises (closes t ! k)) = Some hs"
    by (simp add: resolved_values_Some_iff D(3))
  then show ?thesis using D(7) r by simp
qed

lemma close_idle:
  "server s = [] \<Longrightarrow> portHttp s = None \<Longrightarrow> portHttps s = None \<Longrightarrow>
   close now s = s\<lparr>closes := closes s @ [\<lparr>srvs = [], promises = [], close_result = Resolved []\<rparr>]\<rparr>"
  by (simp add: close_def promise_all_def)

section \<open>listen\<close>

lemma start_fallback_no_redirect:
  "ssl (options s) = SslNone \<or> ssl (options s) = LetsEncrypt \<or> portHttp s = None \<Longrightarrow>
   start_fallback k s =
     upd_listen k (\<lambda>op. op\<lparr>fallback := Resolved (portHttp s), fallback_srv := None\<rparr>) s"
  by (auto simp: start_fallback_def split: option.split)

lemma start_fallback_redirect:
  "ssl (options s) \<noteq> SslNone \<Longrightarrow> ssl (options s) \<noteq> LetsEncrypt \<Longrightarrow> portHttp s = Some p \<Longrightarrow>
   start_fallback k s =
     upd_listen k (\<lambda>op. op\<lparr>fallback := Pending, fallback_srv := Some (length (heap s))\<rparr>)
       (push_listener (RedirectListener p) s)"
  by (simp add: start_fallback_def)

lemma start_main_letsEncrypt:
  "ssl (options s) = LetsEncrypt \<Longrightarrow>
   start_main k s =
     upd_listen k (\<lambda>op. op\<lparr>main := Pending, main_srv := Some (length (heap s))\<rparr>)
       (push_listener (GreenlockListener (greenlockOptions (options s)) (portHttp s) (portHttps s))
          (if isDevelopment (options s) then trust_unsigned s else s))"
  by (simp add: start_main_def Let_def)

lemma start_main_manual:
  "ssl (options s) \<noteq> SslNone \<Longrightarrow> ssl (options s) \<noteq> LetsEncrypt \<Longrightarrow>
   start_main k s =
     upd_listen k (\<lambda>op. op\<lparr>main := Pending, main_srv := Some (length (heap s))\<rparr>)
       (push_listener (SpdyListener (spdyOptions (options s)) (portHttps s))
          (if allowUnsigned (ssl (options s)) \<or> isDevelopment (options s)
           then trust_unsigned s else s))"
  by (cases "ssl (options s)") (simp_all add: start_main_def Let_def)

lemmas listen_cases = listen_def startListening_def Let_def finish_listen_def promise_all_def
  start_fallback_no_redirect start_fallback_redirect start_main_letsEncrypt start_main_manual
  start_main_none_Some start_main_none_None new_listeners_def new_listen_op_def
  trusts_unsigned_def

lemma listen_heap:
  "heap (listen https http s) =
     heap s @ map enableDestroy (new_listeners (options s) https http)"
  by (cases "ssl (options s)"; cases http) (simp_all add: listen_cases)

lemma listen_server:
  "server (listen https http s) =
     server s @ [length (heap s) ..< length (heap s) + length (new_listeners (options s) https http)]"
  by (cases "ssl (options s)"; cases http) (simp_all add: listen_cases upt_rec)

lemma listen_trace:
  "trace (listen https http s) =
     trace s @ debug_call (debug (options s)) ''info''
                 [Str ''Going to listen'', Port (Some https), Port http] @
     Emit ''beforeListen'' #
     map ListenCall
       [length (heap s) ..< length (heap s) + length (new_listeners (options s) https http)]"
  by (cases "ssl (options s)"; cases http) (simp_all add: listen_cases upt_rec)

lemma listen_listens:
  "listens (listen https http s) =
     listens s @ [new_listen_op (options s) (length (heap s)) http]"
  by (cases "ssl (options s)"; cases http) (simp_all add: listen_cases)

lemma listen_env:
  "NODE_TLS_REJECT_UNAUTHORIZED (listen https http s) =
     (if trusts_unsigned (options s) then Some ''0'' else NODE_TLS_REJECT_UNAUTHORIZED s)"
  by (cases "ssl (options s)"; cases http) (simp_all add: listen_cases)
lemma upt_fresh [simp]: "[n ..< n + 0] = []" "[n ..< Suc n] = [n]" "[n ..< Suc (Suc n)] = [n, Suc n]"
  by (simp_all add: upt_rec)

text \<open>
  C5. In mode \<^verbatim>\<open>"none"\<close>, \<^verbatim>\<open>listen\<close> with a plaintext port pushes one server object, the
  application listening on that port, and when its callback comes without error the
  server is bound and the promise resolves with the list of server objects: that one
  object alone on a server that had none. With \<^verbatim>\<open>null\<close> for the plaintext port no server
  object is made, no \<^verbatim>\<open>listen\<close> is called, and the promise is rejected with the error
  \<^verbatim>\<open>Cannot listen on HTTP without HTTP port.\<close>
\<close>

theorem C5_none_mode_one_plain_listener:
  assumes "ssl (options s) = SslNone"
  shows "server (listen https (Some p) s) = server s @ [length (heap s)] \<and>
    heap (listen https (Some p) s) = heap s @ [enableDestroy (AppListener p)] \<and>
    listen_promise (length (listens s)) (listen https (Some p) s) = Pending \<and>
    enabled (ListenCallback (length (listens s)) Main None) (listen https (Some p) s) \<and>
    listen_promise (length (listens s))
      (fire (ListenCallback (length (listens s)) Main None) (listen https (Some p) s))
      = Resolved (server s @ [length (heap s)]) \<and>
    heap (fire (ListenCallback (length (listens s)) Main None) (listen https (Some p) s))
      = heap s @ [(enableDestroy (AppListener p))\<lparr>bound := True\<rparr>] \<and>
    (server s = [] \<longrightarrow>
      listen_promise (length (listens s))
        (fire (ListenCallback (length (listens s)) Main None) (listen https (Some p) s))
        = Resolved [length (heap s)]) \<and>
    server (listen https None s) = server s \<and>
    heap (listen https None s) = heap s \<and>
    trace (listen https None s) =
      trace s @ debug_call (debug (options s)) ''info''
                  [Str ''Going to listen'', Port (Some https), Port None] @
      [Emit ''beforeListen''] \<and>
    listen_promise (length (listens s)) (listen https None s)
      = Rejected (Error ''Cannot listen on HTTP without HTTP port.'')"
proof -
  let ?s1 = "listen https (Some p) s"
  let ?k = "length (listens s)"
  let ?s2 = "fire (ListenCallback ?k Main None) ?s1"
  have nl: "new_listeners (options s) https (Some p) = [AppListener p]"
    "new_listeners (options s) https None = []"
    using assms by (simp_all add: new_listeners_def)
  have op: "listens ?s1 ! ?k =
      \<lparr>main = Pending, main_srv = Some (length (heap s)), fallback = Resolved (Some p),
        fallback_srv = None, listen_result = Pending\<rparr>"
    using assms by (simp add: listen_listens new_listen_op_def)
  have op0: "listens (listen https None s) ! ?k =
      \<lparr>main = Rejected (Error ''Cannot listen on HTTP without HTTP port.''),
        main_srv = None, fallback = Resolved None, fallback_srv = None,
        listen_result = Rejected (Error ''Cannot listen on HTTP without HTTP port.'')\<rparr>"
    using assms by (simp add: listen_listens new_listen_op_def)
  have a: "server ?s1 = server s @ [length (heap s)]"
    by (simp add: listen_server nl)
  have b: "heap ?s1 = heap s @ [enableDestroy (AppListener p)]"
    by (simp add: listen_heap nl)
  have c: "listen_promise ?k ?s1 = Pending"
    by (simp add: listen_promise_def op)
  have d: "enabled (ListenCallback ?k Main None) ?s1"
    by (simp add: op b promise_of_def srv_of_def enableDestroy_def)
  have s2: "?s2 = listen_callback ?k Main None ?s1" by simp
  have e: "listen_promise ?k ?s2 = Resolved (server s @ [length (heap s)])"
    unfolding s2 listen_promise_def
    by (simp add: listen_callback_def srv_of_def op Let_def on_settled_def finish_listen_def
        resolved_port_def assms a upd_listen_def emitEvent_def call_debug_def
        split: option.splits)
  have f: "heap ?s2 = heap s @ [(enableDestroy (AppListener p))\<lparr>bound := True\<rparr>]"
    unfolding s2
    by (simp add: listen_callback_def srv_of_def op Let_def on_settled_def finish_listen_def
        resolved_port_def assms b upd_listen_def emitEvent_def call_debug_def
        split: option.splits)
  have g: "server s = [] \<longrightarrow> listen_promise ?k ?s2 = Resolved [length (heap s)]"
    using e by simp
  have h: "server (listen https None s) = server s"
    by (simp add: listen_server nl)
  have i: "heap (listen https None s) = heap s"
    by (simp add: listen_heap nl)
  have j: "trace (listen https None s) =
      trace s @ debug_call (debug (options s)) ''info''
                  [Str ''Going to listen'', Port (Some https), Port None] @
      [Emit ''beforeListen'']"
    by (simp add: listen_trace nl)
  have k: "listen_promise ?k (listen https None s)
      = Rejected (Error ''Cannot listen on HTTP without HTTP port.'')"
    by (simp add: listen_promise_def op0)
  show ?thesis by (intro conjI a b c d e f g h i j k)
qed

theorem C5_witness:
  "listen_promise 0 (fire (ListenCallback 0 Main None) (listen 443 (Some 8080) (initial plain_options)))
     = Resolved [0] \<and>
   heap (fire (ListenCallback 0 Main None) (listen 443 (Some 8080) (initial plain_options)))
     = [\<lparr>listener = AppListener 8080, connections = [], bound = True, failed = False,
          closed = False, listening_at_close = None, open_sockets = []\<rparr>] \<and>
   listen_promise 0 (listen 443 None (initial plain_options))
     = Rejected (Error ''Cannot listen on HTTP without HTTP port.'')"
proof -
  have h: "ssl (options (initial plain_options)) = SslNone"
    by (simp add: initial_def plain_options_def)
  have l: "listens (initial plain_options) = []" "heap (initial plain_options) = []"
    "server (initial plain_options) = []"
    by (simp_all add: initial_def)
  note T = C5_none_mode_one_plain_listener [OF h, of 443 8080]
  show ?thesis
    using T [THEN conjunct2, THEN conjunct2, THEN conjunct2, THEN conjunct2, THEN conjunct1]
      T [THEN conjunct2, THEN conjunct2, THEN conjunct2, THEN conjunct2, THEN conjunct2,
         THEN conjunct1]
      T [THEN conjunct2, THEN conjunct2, THEN conjunct2, THEN conjunct2, THEN conjunct2,
         THEN conjunct2, THEN conjunct2, THEN conjunct2, THEN conjunct2, THEN conjunct2]
    by (simp add: l enableDestroy_def)
qed
lemma listen_callback_no_srv:
  "srv_of r (listens s ! k) = None \<Longrightarrow> listen_callback k r err s = s"
  by (simp add: listen_callback_def)

lemma is_resolved_iff: "is_resolved p \<longleftrightarrow> (\<exists>v. p = Resolved v)"
  by (cases p) simp_all

lemma on_settled_pair_Main:
  "on_settled (case err of None \<Rightarrow> Resolved v | Some e \<Rightarrow> Rejected e)
     [case err of None \<Rightarrow> Resolved v | Some e \<Rightarrow> Rejected e, q] Pending =
   (case err of Some e \<Rightarrow> Rejected e
    | None \<Rightarrow> (case q of Resolved w \<Rightarrow> Resolved [v, w] | _ \<Rightarrow> Pending))"
  by (cases err; cases q) (simp_all add: on_settled_def)

lemma on_settled_pair_Fallback:
  "on_settled (case err of None \<Rightarrow> Resolved v | Some e \<Rightarrow> Rejected e)
     [q, case err of None \<Rightarrow> Resolved v | Some e \<Rightarrow> Rejected e] Pending =
   (case err of Some e \<Rightarrow> Rejected e
    | None \<Rightarrow> (case q of Resolved w \<Rightarrow> Resolved [w, v] | _ \<Rightarrow> Pending))"
  by (cases err; cases q) (simp_all add: on_settled_def)

lemma listen_callback_trace:
  assumes "k < length (listens s)"
  shows "trace (listen_callback k r err s) =
    trace s @ (if completes k r err s
               then debug_call (debug (options s)) ''info''
                      [Str ''Listening'', Port (portHttps s), Port (portHttp s)] @
                    [Emit ''listen'']
               else [])"
proof (cases "srv_of r (listens s ! k)")
  case None
  then show ?thesis by (simp add: listen_callback_no_srv completes_def)
next
  case (Some h)
  show ?thesis
  proof (cases "listen_result (listens s ! k) = Pending")
    case False
    then show ?thesis using Some assms
      by (cases r; cases err) (simp_all add: listen_callback_def Let_def completes_def)
  next
    case True
    show ?thesis
    proof (cases err)
      case (Some e)
      then show ?thesis using \<open>srv_of r (listens s ! k) = Some h\<close> assms True
        by (cases r)
          (simp_all add: listen_callback_def Let_def completes_def on_settled_def
            finish_listen_def)
    next
      case None
      show ?thesis
      proof (cases "promise_of (other r) (listens s ! k)")
        case (Resolved w)
        then show ?thesis using \<open>srv_of r (listens s ! k) = Some h\<close> assms True None
          by (cases r)
            (simp_all add: listen_callback_def Let_def completes_def on_settled_def
              finish_listen_def promise_of_def)
      next
        case Pending
        then show ?thesis using \<open>srv_of r (listens s ! k) = Some h\<close> assms True None
          by (cases r)
            (simp_all add: listen_callback_def Let_def completes_def on_settled_def
              finish_listen_def promise_of_def)
      next
        case (Rejected e)
        then show ?thesis using \<open>srv_of r (listens s ! k) = Some h\<close> assms True None
          by (cases r)
            (simp_all add: listen_callback_def Let_def completes_def on_settled_def
              finish_listen_def promise_of_def)
      qed
    qed
  qed
qed
lemma listen_callback_fields:
  assumes "k < length (listens s)" and "srv_of r (listens s ! k) = Some h"
  shows "srv_of r' (listens (listen_callback k r err s) ! k) = srv_of r' (listens s ! k)"
    and "promise_of r (listens (listen_callback k r err s) ! k) =
           (case err of Some e \<Rightarrow> Rejected e | None \<Rightarrow> Resolved (resolved_port r s))"
    and "promise_of (other r) (listens (listen_callback k r err s) ! k) =
           promise_of (other r) (listens s ! k)"
    and "listen_result (listens (listen_callback k r err s) ! k) =
           (if listen_result (listens s ! k) \<noteq> Pending then listen_result (listens s ! k)
            else (case err of Some e \<Rightarrow> Rejected e
                  | None \<Rightarrow> if is_resolved (promise_of (other r) (listens s ! k))
                            then Resolved (server s) else Pending))"
  using assms
  by (cases r; cases r'; cases err; cases "promise_of (other r) (listens s ! k)";
      cases "listen_result (listens s ! k) = Pending";
      simp add: listen_callback_def Let_def on_settled_def finish_listen_def promise_of_def
        srv_of_def)+

lemma listen_callback_other:
  "k < length (listens s) \<Longrightarrow> j \<noteq> k \<Longrightarrow>
   listens (listen_callback k r err s) ! j = listens s ! j"
  by (cases r; cases err; cases "promise_of (other r) (listens s ! k)";
      cases "listen_result (listens s ! k) = Pending"; cases "srv_of r (listens s ! k)";
      simp add: listen_callback_def Let_def on_settled_def finish_listen_def promise_of_def
        srv_of_def)
lemmas listen_invD =
  listen_inv_def [THEN iffD1, THEN conjunct1]
  listen_inv_def [THEN iffD1, THEN conjunct2, THEN conjunct1]
  listen_inv_def [THEN iffD1, THEN conjunct2, THEN conjunct2, THEN conjunct1]
  listen_inv_def [THEN iffD1, THEN conjunct2, THEN conjunct2, THEN conjunct2, THEN conjunct1]
  listen_inv_def [THEN iffD1, THEN conjunct2, THEN conjunct2, THEN conjunct2, THEN conjunct2,
    THEN conjunct1]
  listen_inv_def [THEN iffD1, THEN conjunct2, THEN conjunct2, THEN conjunct2, THEN conjunct2,
    THEN conjunct2, THEN conjunct1]
  listen_inv_def [THEN iffD1, THEN conjunct2, THEN conjunct2, THEN conjunct2, THEN conjunct2,
    THEN conjunct2, THEN conjunct2, THEN conjunct1]
  listen_inv_def [THEN iffD1, THEN conjunct2, THEN conjunct2, THEN conjunct2, THEN conjunct2,
    THEN conjunct2, THEN conjunct2, THEN conjunct2]

lemma listen_errors_snoc:
  "listen_errors k (evs @ [ev]) =
     listen_errors k evs @
       (case ev of ListenCallback k' r (Some e) \<Rightarrow> if k' = k then [e] else [] | _ \<Rightarrow> [])"
  by (induction k evs rule: listen_errors.induct) (auto split: event.splits option.splits)

lemma listen_errors_other:
  "\<not> listen_cb_of k ev \<Longrightarrow> listen_errors k (evs @ [ev]) = listen_errors k evs"
  by (cases ev) (simp_all add: listen_errors_snoc split: option.splits)

lemma listen_cb_mem_other:
  "\<not> listen_cb_of k ev \<Longrightarrow>
   ListenCallback k r err \<in> set (evs @ [ev]) \<longleftrightarrow> ListenCallback k r err \<in> set evs"
  by (cases ev) auto

lemma fire_listens_length: "k < length (listens s) \<Longrightarrow> k < length (listens (fire ev s))"
  by (cases ev) simp_all

lemma fire_listens_other:
  "k < length (listens s) \<Longrightarrow> \<not> listen_cb_of k ev \<Longrightarrow> enabled ev s \<Longrightarrow>
   listens (fire ev s) ! k = listens s ! k"
  by (cases ev) (simp_all add: listen_listens nth_append listen_callback_other)

lemma listen_inv_init:
  assumes "fresh_op op0" and "k < length (listens s1)" and "listens s1 ! k = op0"
  shows "listen_inv k op0 [] s1"
proof -
  from assms(1) have a: "\<forall>r. srv_of r op0 \<noteq> None \<longrightarrow> promise_of r op0 = Pending"
    and b: "listen_result op0 = Pending \<longrightarrow> main op0 = Pending"
    by (simp_all add: fresh_op_def)
  show ?thesis
    unfolding listen_inv_def assms(3) using assms(2) a b by simp
qed

lemma listen_inv_other:
  assumes inv: "listen_inv k op0 evs t0" and neq: "\<not> listen_cb_of k ev" and en: "enabled ev t0"
  shows "listen_inv k op0 (evs @ [ev]) (fire ev t0)"
proof -
  have k: "k < length (listens t0)" by (rule listen_invD(1) [OF inv])
  have same: "listens (fire ev t0) ! k = listens t0 ! k"
    by (rule fire_listens_other [OF k neq en])
  have klen: "k < length (listens (fire ev t0)) \<longleftrightarrow> k < length (listens t0)"
    using fire_listens_length [OF k] k by simp
  have errs: "listen_errors k (evs @ [ev]) = listen_errors k evs"
    by (rule listen_errors_other [OF neq])
  have "listen_inv k op0 (evs @ [ev]) (fire ev t0) \<longleftrightarrow> listen_inv k op0 evs t0"
    unfolding listen_inv_def same errs listen_cb_mem_other [OF neq] klen by (rule refl)
  then show ?thesis using inv by (rule iffD2)
qed
lemma other_cases: "r' = r \<or> r' = other r"
  by (cases r; cases r') simp_all

lemma other_neq [simp]: "other r \<noteq> r" "r \<noteq> other r"
  by (cases r; simp)+

lemma both_resolved:
  "is_resolved (main op) \<and> is_resolved (fallback op) \<longleftrightarrow>
   is_resolved (promise_of r op) \<and> is_resolved (promise_of (other r) op)"
  by (cases r) (auto simp: promise_of_def)

lemma listen_inv_callback:
  assumes inv: "listen_inv k op0 evs t0" and en: "enabled (ListenCallback k r err) t0"
  shows "listen_inv k op0 (evs @ [ListenCallback k r err]) (fire (ListenCallback k r err) t0)"
proof -
  let ?op = "listens t0 ! k"
  let ?ev = "ListenCallback k r err"
  let ?t = "listen_callback k r err t0"
  let ?new = "listens ?t ! k"
  note D = listen_invD [OF inv]
  from en obtain h where srv: "srv_of r ?op = Some h" and pend: "promise_of r ?op = Pending"
    by (auto split: option.splits)
  note F = listen_callback_fields [OF D(1) srv, where err = err]
  have srv0: "srv_of r op0 \<noteq> None" using D(2) srv by simp
  have none_before: "ListenCallback k r err' \<notin> set evs" for err'
    using D(4) srv0 pend by blast
  have not_both: "\<not> (is_resolved (main ?op) \<and> is_resolved (fallback ?op))"
    using pend by (simp add: both_resolved [of ?op r])
  have pr: "promise_of r ?new = (case err of Some e \<Rightarrow> Rejected e
                                | None \<Rightarrow> Resolved (resolved_port r t0))"
    by (rule F(2))
  have po: "promise_of (other r) ?new = promise_of (other r) ?op"
    by (rule F(3))
  have c1: "k < length (listens ?t)" using D(1) by simp
  have c2: "\<forall>r'. srv_of r' ?new = srv_of r' op0"
    using F(1) D(2) by simp
  have c3: "\<forall>r'. srv_of r' op0 = None \<longrightarrow> promise_of r' ?new = promise_of r' op0"
  proof (intro allI impI)
    fix r' assume n: "srv_of r' op0 = None"
    then have "r' \<noteq> r" using srv0 by auto
    then have "r' = other r" using other_cases [of r' r] by simp
    then show "promise_of r' ?new = promise_of r' op0" using po D(3) n by simp
  qed
  have c4: "\<forall>r'. srv_of r' op0 \<noteq> None \<longrightarrow>
      (promise_of r' ?new = Pending \<longleftrightarrow> (\<forall>err'. ListenCallback k r' err' \<notin> set (evs @ [?ev])))"
  proof (intro allI impI)
    fix r' assume n: "srv_of r' op0 \<noteq> None"
    show "promise_of r' ?new = Pending \<longleftrightarrow> (\<forall>err'. ListenCallback k r' err' \<notin> set (evs @ [?ev]))"
    proof (cases "r' = r")
      case True
      have "promise_of r ?new \<noteq> Pending" unfolding pr by (simp split: option.splits)
      then show ?thesis using True by auto
    next
      case False
      then have o: "r' = other r" using other_cases [of r' r] by simp
      have "promise_of r' ?op = Pending \<longleftrightarrow> (\<forall>err'. ListenCallback k r' err' \<notin> set evs)"
        using D(4) n by blast
      then show ?thesis using po o False by auto
    qed
  qed
  have c5: "\<forall>r'. srv_of r' op0 \<noteq> None \<longrightarrow>
      (is_resolved (promise_of r' ?new) \<longleftrightarrow> ListenCallback k r' None \<in> set (evs @ [?ev]))"
  proof (intro allI impI)
    fix r' assume n: "srv_of r' op0 \<noteq> None"
    show "is_resolved (promise_of r' ?new) \<longleftrightarrow> ListenCallback k r' None \<in> set (evs @ [?ev])"
    proof (cases "r' = r")
      case True
      have "is_resolved (promise_of r ?new) \<longleftrightarrow> err = None"
        unfolding pr by (simp split: option.splits)
      then show ?thesis using True none_before by auto
    next
      case False
      then have o: "r' = other r" using other_cases [of r' r] by simp
      have "is_resolved (promise_of r' ?op) \<longleftrightarrow> ListenCallback k r' None \<in> set evs"
        using D(5) n by blast
      then show ?thesis using po o False by auto
    qed
  qed
  have c6: "listen_result op0 \<noteq> Pending \<longrightarrow> listen_result ?new = listen_result op0"
    unfolding F(4) using D(6) by simp
  have old_pending: "listen_result ?op = Pending"
    if "listen_result op0 = Pending" "listen_errors k evs = []"
    using D(8) that not_both by simp
  have c7: "listen_result op0 = Pending \<longrightarrow> listen_errors k (evs @ [?ev]) \<noteq> [] \<longrightarrow>
      listen_result ?new = Rejected (hd (listen_errors k (evs @ [?ev])))"
  proof (intro impI)
    assume p0: "listen_result op0 = Pending" and ne: "listen_errors k (evs @ [?ev]) \<noteq> []"
    show "listen_result ?new = Rejected (hd (listen_errors k (evs @ [?ev])))"
    proof (cases "listen_errors k evs = []")
      case True
      with ne obtain e where e: "err = Some e"
        by (cases err) (simp_all add: listen_errors_snoc)
      show ?thesis
        unfolding F(4) using old_pending [OF p0 True] by (simp add: e listen_errors_snoc True)
    next
      case False
      then have "listen_result ?op = Rejected (hd (listen_errors k evs))"
        using D(7) p0 by simp
      then show ?thesis unfolding F(4) using False by (simp add: listen_errors_snoc)
    qed
  qed
  have c8: "listen_result op0 = Pending \<longrightarrow> listen_errors k (evs @ [?ev]) = [] \<longrightarrow>
      (if is_resolved (main ?new) \<and> is_resolved (fallback ?new)
       then is_resolved (listen_result ?new) else listen_result ?new = Pending)"
  proof (intro impI)
    assume p0: "listen_result op0 = Pending" and ne: "listen_errors k (evs @ [?ev]) = []"
    then have old: "listen_errors k evs = []" and err: "err = None"
      by (cases err; simp add: listen_errors_snoc)+
    have "is_resolved (promise_of r ?new)" unfolding pr by (simp add: err)
    then have "is_resolved (main ?new) \<and> is_resolved (fallback ?new) \<longleftrightarrow>
        is_resolved (promise_of (other r) ?op)"
      by (simp add: both_resolved [of ?new r] po)
    then show "if is_resolved (main ?new) \<and> is_resolved (fallback ?new)
       then is_resolved (listen_result ?new) else listen_result ?new = Pending"
      unfolding F(4) using old_pending [OF p0 old] by (simp add: err)
  qed
  have "listen_inv k op0 (evs @ [?ev]) ?t"
    unfolding listen_inv_def by (intro conjI c1 c2 c3 c4 c5 c6 c7 c8)
  then show ?thesis by simp
qed

lemma listen_run_inv:
  assumes "listen_inv k op0 [] s1"
  shows "run evs s1 = Some t \<Longrightarrow> listen_inv k op0 evs t"
proof (induction evs arbitrary: t rule: rev_induct)
  case Nil
  then show ?case using assms by simp
next
  case (snoc ev evs)
  from snoc.prems obtain t0 where t0: "run evs s1 = Some t0"
    and en: "enabled ev t0" and t: "t = fire ev t0"
    by (auto simp: run_snoc)
  note IH = snoc.IH [OF t0]
  show ?case
  proof (cases "listen_cb_of k ev")
    case False
    then show ?thesis using listen_inv_other [OF IH _ en] t by simp
  next
    case True
    then obtain r err where "ev = ListenCallback k r err" by (cases ev) simp_all
    then show ?thesis using listen_inv_callback [OF IH] en t by simp
  qed
qed
section \<open>The events of listening\<close>

lemma fresh_op_new: "fresh_op (new_listen_op opts n http)"
  by (cases "ssl opts"; cases http)
    (auto simp: fresh_op_def new_listen_op_def srv_of_def promise_of_def split: role.splits)

lemma listen_inv_listen:
  assumes "run evs (listen https http s) = Some s'"
  shows "listen_inv (length (listens s)) (new_listen_op (options s) (length (heap s)) http) evs s'"
proof -
  have "listen_inv (length (listens s)) (new_listen_op (options s) (length (heap s)) http) []
          (listen https http s)"
    by (rule listen_inv_init [OF fresh_op_new]) (simp_all add: listen_listens)
  then show ?thesis using assms by (rule listen_run_inv)
qed

lemma count_SocketDestroy [simp]: "count_list (map SocketDestroy cs) (Emit e) = 0"
  by (induction cs) simp_all

lemma count_SocketDestroy_comp [simp]:
  "count_list (map (SocketDestroy \<circ> g) cs) (Emit e) = 0"
  by (induction cs) simp_all

lemma count_ListenCall [simp]: "count_list (map ListenCall hs) (Emit e) = 0"
  by (induction hs) simp_all

lemma count_debug_call [simp]: "count_list (debug_call d level args) (Emit e) = 0"
  by (cases d; cases "the d") (simp_all add: debug_call_def)

lemma close_loop_count:
  "count_list (trace (close_loop now hs s)) (Emit e) = count_list (trace s) (Emit e)"
  by (induction hs arbitrary: s) simp_all

lemma close_count [simp]:
  "count_list (trace (close now s)) (Emit e) = count_list (trace s) (Emit e)"
  by (simp add: close_def Let_def close_loop_count)

lemma listen_count:
  "count_list (trace (listen https http s)) (Emit e) =
     count_list (trace s) (Emit e) + (if e = ''beforeListen'' then 1 else 0)"
  by (simp add: listen_trace)

lemma listen_callback_count:
  assumes "enabled (ListenCallback k r err) s"
  shows "count_list (trace (listen_callback k r err s)) (Emit e) =
     count_list (trace s) (Emit e) + (if e = ''listen'' \<and> completes k r err s then 1 else 0)"
  using assms by (simp add: listen_callback_trace)

lemma listen_callback_resolved:
  assumes "enabled (ListenCallback k r err) s"
  shows "is_resolved (listen_result (listens (listen_callback k r err s) ! k)) \<longleftrightarrow>
     is_resolved (listen_result (listens s ! k)) \<or> completes k r err s"
proof -
  from assms obtain h where k: "k < length (listens s)" and srv: "srv_of r (listens s ! k) = Some h"
    by (auto split: option.splits)
  show ?thesis
    unfolding listen_callback_fields(4) [OF k srv]
    by (cases "listen_result (listens s ! k)"; cases err) (simp_all add: completes_def srv)
qed

lemma completes_not_resolved:
  "completes k r err s \<Longrightarrow> \<not> is_resolved (listen_result (listens s ! k))"
  by (simp add: completes_def)

lemma fire_count_listen:
  assumes "enabled ev s" and "only_listen k ev" and "k < length (listens s)"
  shows "count_list (trace (fire ev s)) (Emit ''listen'') +
           (if is_resolved (listen_promise k s) then 1 else 0) =
         count_list (trace s) (Emit ''listen'') +
           (if is_resolved (listen_promise k (fire ev s)) then 1 else 0)"
proof (cases "listen_cb_of k ev")
  case True
  then obtain r err where ev: "ev = ListenCallback k r err" by (cases ev) simp_all
  show ?thesis
    using assms(1) completes_not_resolved [of k r err s]
    unfolding ev listen_promise_def
    by (simp add: listen_callback_count listen_callback_resolved del: enabled.simps)
next
  case False
  have same: "listens (fire ev s) ! k = listens s ! k"
    by (rule fire_listens_other [OF assms(3) False assms(1)])
  have "count_list (trace (fire ev s)) (Emit ''listen'') = count_list (trace s) (Emit ''listen'')"
    using assms(2) False by (cases ev) simp_all
  then show ?thesis by (simp add: listen_promise_def same)
qed

lemma fire_count_beforeListen:
  assumes "enabled ev s" and "only_listen k ev"
  shows "count_list (trace (fire ev s)) (Emit ''beforeListen'') =
         count_list (trace s) (Emit ''beforeListen'')"
  using assms by (cases ev) (simp_all add: listen_callback_count del: enabled.simps)

lemma run_count:
  assumes "run evs s = Some s'" and "\<forall>ev\<in>set evs. only_listen k ev" and "k < length (listens s)"
  shows "count_list (trace s') (Emit ''listen'') +
           (if is_resolved (listen_promise k s) then 1 else 0) =
         count_list (trace s) (Emit ''listen'') +
           (if is_resolved (listen_promise k s') then 1 else 0) \<and>
         count_list (trace s') (Emit ''beforeListen'') = count_list (trace s) (Emit ''beforeListen'')"
  using assms
proof (induction evs arbitrary: s)
  case Nil
  then show ?case by simp
next
  case (Cons ev evs)
  from Cons.prems have en: "enabled ev s" and r: "run evs (fire ev s) = Some s'"
    and o: "only_listen k ev" and os: "\<forall>ev\<in>set evs. only_listen k ev"
    by (auto split: if_splits)
  have k': "k < length (listens (fire ev s))"
    by (rule fire_listens_length [OF Cons.prems(3)])
  from Cons.IH [OF r os k'] fire_count_listen [OF en o Cons.prems(3)]
    fire_count_beforeListen [OF en o]
  show ?case by (simp split: if_splits)
qed
lemma new_op_no_srv:
  "srv_of r (new_listen_op opts n http) = None \<Longrightarrow>
   listen_result (new_listen_op opts n http) = Pending \<Longrightarrow>
   is_resolved (promise_of r (new_listen_op opts n http))"
  by (cases "ssl opts"; cases http; cases r)
    (simp_all add: new_listen_op_def srv_of_def promise_of_def)

lemma new_op_srvs:
  "{h. \<exists>r. srv_of r (new_listen_op opts n http) = Some h} =
   {n ..< n + length (new_listeners opts https http)}"
proof -
  have r: "(\<exists>r. P r) \<longleftrightarrow> P Main \<or> P Fallback" for P
    by (metis role.exhaust)
  show ?thesis
    by (cases "ssl opts"; cases http)
      (auto simp: r new_listen_op_def new_listeners_def srv_of_def)
qed

lemma listen_inv_resolved:
  assumes inv: "listen_inv k op0 evs t" and f: "fresh_op op0"
    and r: "is_resolved (listen_result (listens t ! k))"
  shows "listen_errors k evs = [] \<and>
    (\<forall>r. srv_of r op0 \<noteq> None \<longrightarrow> ListenCallback k r None \<in> set evs)"
proof -
  note D = listen_invD [OF inv]
  from f have nr: "\<not> is_resolved (listen_result op0)" by (simp add: fresh_op_def)
  have p0: "listen_result op0 = Pending"
  proof (rule ccontr)
    assume "listen_result op0 \<noteq> Pending"
    then have "listen_result (listens t ! k) = listen_result op0" using D(6) by simp
    then show False using r nr by simp
  qed
  have e: "listen_errors k evs = []"
  proof (rule ccontr)
    assume "listen_errors k evs \<noteq> []"
    then have "listen_result (listens t ! k) = Rejected (hd (listen_errors k evs))"
      using D(7) p0 by simp
    then show False using r by simp
  qed
  have both: "is_resolved (main (listens t ! k)) \<and> is_resolved (fallback (listens t ! k))"
  proof (rule ccontr)
    assume "\<not> (is_resolved (main (listens t ! k)) \<and> is_resolved (fallback (listens t ! k)))"
    then have "listen_result (listens t ! k) = Pending" using D(8) p0 e by simp
    then show False using r by simp
  qed
  have "ListenCallback k r' None \<in> set evs" if "srv_of r' op0 \<noteq> None" for r'
  proof -
    have "is_resolved (promise_of r' (listens t ! k))"
      using both by (cases r') (simp_all add: promise_of_def)
    then show ?thesis using D(5) that by blast
  qed
  with e show ?thesis by blast
qed

lemma listen_inv_progress:
  assumes inv: "listen_inv k op0 evs t"
    and p0: "listen_result op0 = Pending" and e: "listen_errors k evs = []"
    and n: "\<forall>r. srv_of r op0 = None \<longrightarrow> is_resolved (promise_of r op0)"
    and a: "\<forall>r. srv_of r op0 \<noteq> None \<longrightarrow> ListenCallback k r None \<in> set evs"
  shows "is_resolved (listen_result (listens t ! k))"
proof -
  note D = listen_invD [OF inv]
  have res: "is_resolved (promise_of r (listens t ! k))" for r
  proof (cases "srv_of r op0 = None")
    case True
    then show ?thesis using D(3) n by simp
  next
    case False
    then show ?thesis using D(5) a by blast
  qed
  have "is_resolved (main (listens t ! k)) \<and> is_resolved (fallback (listens t ! k))"
    using res [of Main] res [of Fallback] by (simp add: promise_of_def)
  then show ?thesis using D(8) p0 e by simp
qed

text \<open>
  C2. A call of \<^verbatim>\<open>listen\<close> emits \<^verbatim>\<open>beforeListen\<close> once, after the debug call and before
  the first \<^verbatim>\<open>listen\<close> on a server object, and not again while only callbacks and calls of
  \<^verbatim>\<open>close\<close> follow. In any such run \<^verbatim>\<open>listen\<close> is emitted once if the promise of the call
  is resolved at the end and not at all otherwise. The promise is resolved only if the
  callback of every server object made by the call has come without error and no callback
  has come with an error; with an error it is never resolved; and it is resolved once
  all those callbacks have come without error.
\<close>

theorem C2_beforeListen_once_listen_on_success:
  assumes "run evs (listen https http s) = Some s'"
    and "\<forall>ev\<in>set evs. only_listen (length (listens s)) ev"
  shows "trace (listen https http s) =
      trace s @ debug_call (debug (options s)) ''info''
                  [Str ''Going to listen'', Port (Some https), Port http] @
      Emit ''beforeListen'' #
      map ListenCall [length (heap s) ..< length (heap (listen https http s))] \<and>
    {h. \<exists>r. srv_of r (listens (listen https http s) ! length (listens s)) = Some h} =
      {length (heap s) ..< length (heap (listen https http s))} \<and>
    count_list (trace s') (Emit ''beforeListen'') =
      Suc (count_list (trace s) (Emit ''beforeListen'')) \<and>
    count_list (trace s') (Emit ''listen'') =
      count_list (trace s) (Emit ''listen'') +
      (if is_resolved (listen_promise (length (listens s)) s') then 1 else 0) \<and>
    (is_resolved (listen_promise (length (listens s)) s') \<longrightarrow>
      listen_errors (length (listens s)) evs = [] \<and>
      (\<forall>r. srv_of r (listens (listen https http s) ! length (listens s)) \<noteq> None \<longrightarrow>
         ListenCallback (length (listens s)) r None \<in> set evs)) \<and>
    (listen_errors (length (listens s)) evs \<noteq> [] \<longrightarrow>
      \<not> is_resolved (listen_promise (length (listens s)) s')) \<and>
    (listen_promise (length (listens s)) (listen https http s) = Pending \<and>
     listen_errors (length (listens s)) evs = [] \<and>
     (\<forall>r. srv_of r (listens (listen https http s) ! length (listens s)) \<noteq> None \<longrightarrow>
         ListenCallback (length (listens s)) r None \<in> set evs) \<longrightarrow>
      is_resolved (listen_promise (length (listens s)) s'))"
proof -
  let ?k = "length (listens s)"
  let ?s1 = "listen https http s"
  let ?op0 = "new_listen_op (options s) (length (heap s)) http"
  note inv = listen_inv_listen [OF assms(1)]
  have op0: "listens ?s1 ! ?k = ?op0" by (simp add: listen_listens)
  have len: "length (heap ?s1) = length (heap s) + length (new_listeners (options s) https http)"
    by (simp add: listen_heap)
  have k1: "?k < length (listens ?s1)" by simp
  have nr1: "\<not> is_resolved (listen_promise ?k ?s1)"
    using fresh_op_new [of "options s" "length (heap s)" http]
    by (simp add: listen_promise_def op0 fresh_op_def)
  note cnt = run_count [OF assms(1) assms(2) k1]
  have a: "trace ?s1 =
      trace s @ debug_call (debug (options s)) ''info''
                  [Str ''Going to listen'', Port (Some https), Port http] @
      Emit ''beforeListen'' # map ListenCall [length (heap s) ..< length (heap ?s1)]"
    unfolding len by (rule listen_trace)
  have b: "{h. \<exists>r. srv_of r (listens ?s1 ! ?k) = Some h} = {length (heap s) ..< length (heap ?s1)}"
    unfolding len op0 by (rule new_op_srvs)
  have c: "count_list (trace s') (Emit ''beforeListen'') =
      Suc (count_list (trace s) (Emit ''beforeListen''))"
    using cnt by (simp add: listen_count)
  have d: "count_list (trace s') (Emit ''listen'') =
      count_list (trace s) (Emit ''listen'') + (if is_resolved (listen_promise ?k s') then 1 else 0)"
    using cnt nr1 by (simp add: listen_count)
  have e: "is_resolved (listen_promise ?k s') \<longrightarrow>
      listen_errors ?k evs = [] \<and>
      (\<forall>r. srv_of r (listens ?s1 ! ?k) \<noteq> None \<longrightarrow> ListenCallback ?k r None \<in> set evs)"
    unfolding op0 listen_promise_def
    using listen_inv_resolved [OF inv fresh_op_new] by blast
  have f: "listen_errors ?k evs \<noteq> [] \<longrightarrow> \<not> is_resolved (listen_promise ?k s')"
    using e by blast
  have g: "listen_promise ?k ?s1 = Pending \<and> listen_errors ?k evs = [] \<and>
     (\<forall>r. srv_of r (listens ?s1 ! ?k) \<noteq> None \<longrightarrow> ListenCallback ?k r None \<in> set evs) \<longrightarrow>
      is_resolved (listen_promise ?k s')"
    unfolding op0 listen_promise_def
    using listen_inv_progress [OF inv] new_op_no_srv [of _ "options s" "length (heap s)" http]
    by blast
  show ?thesis by (intro conjI a b c d e f g)
qed

theorem C2_witness:
  "\<exists>s'. run [ListenCallback 0 Fallback None, ListenCallback 0 Main None]
           (listen 8443 (Some 8080) (initial manual_options)) = Some s' \<and>
        count_list (trace s') (Emit ''beforeListen'') = 1 \<and>
        count_list (trace s') (Emit ''listen'') = 1"
proof -
  have "\<exists>s'. run [ListenCallback 0 Fallback None, ListenCallback 0 Main None]
           (listen 8443 (Some 8080) (initial manual_options)) = Some s' \<and>
           is_resolved (listen_promise 0 s')"
    by (simp add: eval_defs manual_options_def)
  then obtain s' where
    h: "run [ListenCallback 0 Fallback None, ListenCallback 0 Main None]
          (listen 8443 (Some 8080) (initial manual_options)) = Some s'"
    and r: "is_resolved (listen_promise 0 s')"
    by blast
  have l: "listens (initial manual_options) = []" "trace (initial manual_options) = []"
    by (simp_all add: initial_def)
  have o: "\<forall>ev\<in>set [ListenCallback 0 Fallback None, ListenCallback 0 Main None].
      only_listen (length (listens (initial manual_options))) ev"
    by (simp add: l)
  note T = C2_beforeListen_once_listen_on_success [OF h o]
  have "count_list (trace s') (Emit ''beforeListen'') = 1"
    using T [THEN conjunct2, THEN conjunct2, THEN conjunct1] by (simp add: l)
  moreover have "count_list (trace s') (Emit ''listen'') = 1"
    using T [THEN conjunct2, THEN conjunct2, THEN conjunct2, THEN conjunct1] r by (simp add: l)
  ultimately show ?thesis using h by blast
qed
section \<open>Server objects during callbacks\<close>

lemma nth_update_field:
  assumes "\<And>v. P (f v) = P v"
  shows "P ((xs[h := f (xs ! h)]) ! h') = P (xs ! h')"
proof (cases "h < length xs")
  case True
  then show ?thesis using assms by (cases "h = h'") simp_all
next
  case False
  then have "xs[h := f (xs ! h)] = xs" by (simp add: not_less list_update_beyond)
  then show ?thesis by simp
qed

lemma listen_callback_heap:
  "heap (listen_callback k r err s) =
    (case srv_of r (listens s ! k) of
       None \<Rightarrow> heap s
     | Some h \<Rightarrow> if err = None then (heap s)[h := (heap s ! h)\<lparr>bound := True\<rparr>] else heap s)"
  by (cases "srv_of r (listens s ! k)"; cases err)
    (simp_all add: listen_callback_def Let_def)

lemma connection_heap:
  "heap (connection h a p s) =
    (heap s)[h := (heap s ! h)\<lparr>connections :=
        AList.update (conn_key \<lparr>remoteAddress = a, remotePort = p, status = Open, accepted_by = h\<rparr>)
          (length (sockets s)) (connections (heap s ! h)),
      open_sockets := open_sockets (heap s ! h) @ [length (sockets s)]\<rparr>]"
  by (simp add: connection_def Let_def)

lemma socket_close_heap:
  "heap (socket_close c s) =
    (heap s)[accepted_by (sockets s ! c) := (heap s ! accepted_by (sockets s ! c))\<lparr>connections :=
        AList.delete (conn_key (sockets s ! c)) (connections (heap s ! accepted_by (sockets s ! c))),
      open_sockets := removeAll c (open_sockets (heap s ! accepted_by (sockets s ! c)))\<rparr>]"
  by (simp add: socket_close_def Let_def)

lemma fire_callback_closed:
  "is_callback ev \<Longrightarrow> closed (heap (fire ev s) ! h) = closed (heap s ! h)"
proof (cases ev)
  case (ListenCallback k r err)
  show ?thesis
    unfolding ListenCallback fire.simps listen_callback_heap
    by (cases "srv_of r (listens s ! k)")
      (simp_all add: nth_update_field [where P = closed and f = "\<lambda>v. v\<lparr>bound := True\<rparr>"])
next
  case (Connection h' a p)
  show ?thesis
    unfolding Connection fire.simps connection_heap
    by (rule nth_update_field [where P = closed]) simp
next
  case (SocketClose c)
  show ?thesis
    unfolding SocketClose fire.simps socket_close_heap
    by (rule nth_update_field [where P = closed]) simp
next
  case (ServerError h' e)
  show ?thesis
    unfolding ServerError fire.simps server_error_simps
    by (rule nth_update_field [where P = closed]) simp
qed simp_all

lemma listen_callback_binds:
  assumes "enabled (ListenCallback k r None) s" and "srv_of r (listens s ! k) = Some h"
  shows "bound (heap (listen_callback k r None s) ! h)"
  using assms by (simp add: listen_callback_heap)

lemma run_callbacks_closed:
  "run evs s = Some s' \<Longrightarrow> \<forall>ev\<in>set evs. is_callback ev \<Longrightarrow>
   closed (heap s' ! h) = closed (heap s ! h)"
  by (induction evs arbitrary: s) (auto split: if_splits simp: fire_callback_closed)

lemma run_append:
  "run (evs1 @ evs2) s = Some s' \<longleftrightarrow> (\<exists>t. run evs1 s = Some t \<and> run evs2 t = Some s')"
  by (induction evs1 arbitrary: s) auto

lemma fire_callback_listener:
  "is_callback ev \<Longrightarrow> listener (heap (fire ev s) ! h) = listener (heap s ! h)"
proof (cases ev)
  case (ListenCallback k r err)
  show ?thesis
    unfolding ListenCallback fire.simps listen_callback_heap
    by (cases "srv_of r (listens s ! k)")
      (simp_all add: nth_update_field [where P = listener and f = "\<lambda>v. v\<lparr>bound := True\<rparr>"])
next
  case (Connection h' a p)
  show ?thesis
    unfolding Connection fire.simps connection_heap
    by (rule nth_update_field [where P = listener]) simp
next
  case (SocketClose c)
  show ?thesis
    unfolding SocketClose fire.simps socket_close_heap
    by (rule nth_update_field [where P = listener]) simp
next
  case (ServerError h' e)
  show ?thesis
    unfolding ServerError fire.simps server_error_simps
    by (rule nth_update_field [where P = listener]) simp
qed simp_all

lemma run_callbacks_listener:
  "run evs s = Some s' \<Longrightarrow> \<forall>ev\<in>set evs. is_callback ev \<Longrightarrow>
   listener (heap s' ! h) = listener (heap s ! h)"
  by (induction evs arbitrary: s) (auto split: if_splits simp: fire_callback_listener)

section \<open>The trace of close\<close>

lemma close_obs_cong:
  "(\<And>h. connections (hp ! h) = connections (hp' ! h)) \<Longrightarrow>
   close_obs now hp hs = close_obs now hp' hs"
  by (induction hs) simp_all

lemma close_loop_trace:
  "trace (close_loop now hs s) = trace s @ close_obs now (heap s) hs"
proof (induction hs arbitrary: s)
  case Nil
  show ?case by simp
next
  case (Cons h hs)
  have c: "connections ((heap s)[h := node_close (heap s ! h)] ! h') =
      connections (heap s ! h')" for h'
    by (rule nth_update_field [where P = connections]) simp
  have "close_obs now ((heap s)[h := node_close (heap s ! h)]) hs =
      close_obs now (heap s) hs"
    by (rule close_obs_cong) (rule c)
  with Cons.IH show ?case by (cases now) simp_all
qed

lemma close_trace: "trace (close now s) = trace s @ close_obs now (heap s) (server s)"
  by (simp add: close_def Let_def close_loop_trace)

lemma close_obs_no_debug [simp]: "filter is_debug_obs (close_obs now hp hs) = []"
  by (induction hs) (simp_all add: filter_empty_conv)

lemma debug_call_is_debug [simp]: "filter is_debug_obs (debug_call d level args) = debug_call d level args"
  by (cases d; cases "the d") (simp_all add: debug_call_def)

lemma ListenCall_no_debug [simp]: "filter is_debug_obs (map ListenCall hs) = []"
  by (simp add: filter_empty_conv)

section \<open>The redirect\<close>

lemma fallback_redirects_get:
  assumes "ssl (options s) = Manual key' cert' a"
    and "run evs (listen https (Some p) s) = Some s'"
    and "\<forall>ev\<in>set evs. is_callback ev"
  shows "respond s' (length (heap s)) req =
    (if verb req = GET \<or> verb req = HEAD
     then Redirect (''https://'' @ undef_str (host req) @ '':'' @ num_str https @ url req)
     else NotFound)"
proof -
  have nl: "new_listeners (options s) https (Some p) =
      [RedirectListener p, SpdyListener (spdyOptions (options s)) (Some https)]"
    using assms(1) by (simp add: new_listeners_def)
  have "listener (heap s' ! length (heap s)) = RedirectListener p"
    using run_callbacks_listener [OF assms(2) assms(3), of "length (heap s)"]
    by (simp add: listen_heap nl enableDestroy_def)
  moreover have "portHttps s' = Some https"
    using run_callbacks_frame [OF assms(2) assms(3)] by simp
  ultimately show ?thesis
    by (cases "verb req")
      (simp_all add: respond_def get_star_def redirect_handler_def port_str_def)
qed

lemma listening_example_redirects:
  "respond listening_example 0 \<lparr>verb = GET, host = Some ''example.com'', url = ''/foo?x=1''\<rparr>
     = Redirect ''https://example.com:8443/foo?x=1''"
  by (simp add: respond_def get_star_def redirect_handler_def port_str_def undef_str_def
      listening_example_def num_str.simps)

text \<open>
  C3. After \<^verbatim>\<open>listen(8443, 8080)\<close> with certificates given by the caller, a \<^verbatim>\<open>POST\<close> request
  for \<^verbatim>\<open>/foo?x=1\<close> to the fallback server is not redirected: the only route of that
  server is \<^verbatim>\<open>get("*", ...)\<close>, and Express answers 404.
\<close>

theorem C3_post_request_not_redirected:
  "respond listening_example 0 \<lparr>verb = POST, host = Some ''example.com'', url = ''/foo?x=1''\<rparr>
     = NotFound"
  by (simp add: respond_def get_star_def listening_example_def)

section \<open>The environment of the process\<close>

lemma fire_env:
  "\<forall>https http. ev \<noteq> Call_listen https http \<Longrightarrow>
   NODE_TLS_REJECT_UNAUTHORIZED (fire ev s) = NODE_TLS_REJECT_UNAUTHORIZED s"
  by (cases ev) auto

text \<open>
  C8 (amended). The mode is the field \<^verbatim>\<open>ssl\<close> of the options, which no call and no
  callback changes, so it and the result of \<^verbatim>\<open>spdyOptions()\<close> are the same however often
  they are read. Acting on the mode in \<^verbatim>\<open>startListening\<close> is not free of effects:
  \<^verbatim>\<open>listen\<close> sets \<^verbatim>\<open>process.env.NODE_TLS_REJECT_UNAUTHORIZED\<close> to \<^verbatim>\<open>"0"\<close> in mode
  \<^verbatim>\<open>"letsEncrypt"\<close> with \<^verbatim>\<open>isDevelopment\<close>, and with certificates of the caller when
  \<^verbatim>\<open>allowUnsigned\<close> or \<^verbatim>\<open>isDevelopment\<close> is set, and leaves it as it is otherwise. Nothing
  else changes that variable.
\<close>

theorem C8_mode_fixed_listen_sets_environment:
  "options (fire ev s) = options s \<and>
   ssl (options (fire ev s)) = ssl (options s) \<and>
   spdyOptions (options (fire ev s)) = spdyOptions (options s) \<and>
   NODE_TLS_REJECT_UNAUTHORIZED (listen https http s) =
     (if (ssl (options s) = LetsEncrypt \<and> isDevelopment (options s)) \<or>
         (\<exists>k c a. ssl (options s) = Manual k c a \<and> (a \<or> isDevelopment (options s)))
      then Some ''0'' else NODE_TLS_REJECT_UNAUTHORIZED s) \<and>
   ((\<forall>https http. ev \<noteq> Call_listen https http) \<longrightarrow>
      NODE_TLS_REJECT_UNAUTHORIZED (fire ev s) = NODE_TLS_REJECT_UNAUTHORIZED s)"
proof -
  have a: "NODE_TLS_REJECT_UNAUTHORIZED (listen https http s) =
     (if (ssl (options s) = LetsEncrypt \<and> isDevelopment (options s)) \<or>
         (\<exists>k c a. ssl (options s) = Manual k c a \<and> (a \<or> isDevelopment (options s)))
      then Some ''0'' else NODE_TLS_REJECT_UNAUTHORIZED s)"
    by (cases "ssl (options s)") (simp_all add: listen_env trusts_unsigned_def)
  have b: "(\<forall>https http. ev \<noteq> Call_listen https http) \<longrightarrow>
      NODE_TLS_REJECT_UNAUTHORIZED (fire ev s) = NODE_TLS_REJECT_UNAUTHORIZED s"
    using fire_env [of ev s] by blast
  show ?thesis using a b by simp
qed

theorem C8_witness:
  "NODE_TLS_REJECT_UNAUTHORIZED (fire (Call_close True) listening_example) = Some ''0'' \<and>
   NODE_TLS_REJECT_UNAUTHORIZED (listen 80 (Some 8080) (initial plain_options)) = None"
  using C8_mode_fixed_listen_sets_environment [of "Call_close True" listening_example]
    C8_mode_fixed_listen_sets_environment [of _ "initial plain_options" 80 "Some 8080"]
  by (simp add: listening_example_def initial_def plain_options_def manual_options_def)

theorem C8_counterexample:
  "NODE_TLS_REJECT_UNAUTHORIZED (initial manual_options) = None \<and>
   NODE_TLS_REJECT_UNAUTHORIZED (listen 8443 (Some 8080) (initial manual_options)) = Some ''0''"
  by (simp add: listen_env trusts_unsigned_def initial_def manual_options_def)

section \<open>The debug function\<close>

lemma new_Server_debug:
  assumes "new_Server p = Inr s0"
  shows "debug (options s0) = (case p_debug p of None \<Rightarrow> Some DefaultDebug | Some d \<Rightarrow> d)"
    and "trace s0 = debug_call (debug (options s0)) ''debug'' [Str ''Options'', Options (options s0)]"
  using assms
  by (auto simp: new_Server_def createDefaultOptions_def or_default_def initial_def
      split: option.splits sum.splits)

lemma fire_debug:
  assumes "enabled ev s"
  shows "filter is_debug_obs (trace (fire ev s)) =
    filter is_debug_obs (trace s) @
    (case ev of
       Call_listen https http \<Rightarrow>
         debug_call (debug (options s)) ''info''
           [Str ''Going to listen'', Port (Some https), Port http]
     | ListenCallback k r err \<Rightarrow>
         if completes k r err s
         then debug_call (debug (options s)) ''info''
                [Str ''Listening'', Port (portHttps s), Port (portHttp s)]
         else []
     | _ \<Rightarrow> [])"
  using assms by (cases ev) (simp_all add: listen_trace close_trace listen_callback_trace)

lemma debug_call_None [simp]: "debug_call None level args = []"
  by (simp add: debug_call_def)

lemma run_no_debug:
  "run evs s = Some s' \<Longrightarrow> debug (options s) = None \<Longrightarrow>
   filter is_debug_obs (trace s') = filter is_debug_obs (trace s)"
proof (induction evs arbitrary: s)
  case Nil
  then show ?case by simp
next
  case (Cons ev evs)
  from Cons.prems have en: "enabled ev s" and r: "run evs (fire ev s) = Some s'"
    by (auto split: if_splits)
  have "filter is_debug_obs (trace (fire ev s)) = filter is_debug_obs (trace s)"
    unfolding fire_debug [OF en] using Cons.prems(2) by (cases ev) simp_all
  moreover have "debug (options (fire ev s)) = None" using Cons.prems(2) by simp
  ultimately show ?case using Cons.IH [OF r] by simp
qed
lemma new_Server_default_config:
  "new_Server default_config =
     Inr (call_debug ''debug'' [Str ''Options'', Options default_options] (initial default_options))"
  by (simp add: new_Server_def createDefaultOptions_def default_config_def manual_config_def
      default_options_def manual_options_def or_default_def)

text \<open>
  C9 (amended). The debug function of the options is the one given, none when \<^verbatim>\<open>null\<close> was
  given, and \<^verbatim>\<open>defaultDebug\<close> (which writes to the console) when the property is absent.
  It is called with \<^verbatim>\<open>"debug"\<close> and the options by the constructor, with \<^verbatim>\<open>"info"\<close> by
  \<^verbatim>\<open>listen\<close> before anything else, and with \<^verbatim>\<open>"info"\<close> by the callback that completes a call
  of \<^verbatim>\<open>listen\<close>; nothing else calls it, and with \<^verbatim>\<open>null\<close> no call is made in any run.
\<close>

theorem C9_debug_calls_null_disables:
  "(new_Server p = Inr s0 \<longrightarrow>
      debug (options s0) = (case p_debug p of None \<Rightarrow> Some DefaultDebug | Some d \<Rightarrow> d) \<and>
      trace s0 = debug_call (debug (options s0)) ''debug''
                   [Str ''Options'', Options (options s0)]) \<and>
   (enabled ev s \<longrightarrow>
      filter is_debug_obs (trace (fire ev s)) =
        filter is_debug_obs (trace s) @
        (case ev of
           Call_listen https http \<Rightarrow>
             debug_call (debug (options s)) ''info''
               [Str ''Going to listen'', Port (Some https), Port http]
         | ListenCallback k r err \<Rightarrow>
             if completes k r err s
             then debug_call (debug (options s)) ''info''
                    [Str ''Listening'', Port (portHttps s), Port (portHttp s)]
             else []
         | _ \<Rightarrow> [])) \<and>
   (run evs s = Some s' \<longrightarrow> debug (options s) = None \<longrightarrow>
      filter is_debug_obs (trace s') = filter is_debug_obs (trace s))"
  using new_Server_debug [of p s0] fire_debug [of ev s] run_no_debug [of evs s s']
  by blast

theorem C9_witness:
  "filter is_debug_obs (trace (fire (Call_listen 8443 (Some 8080))
      (call_debug ''debug'' [Str ''Options'', Options default_options] (initial default_options))))
   = [ConsoleLog [Str ''[debug]'', Str castle, Str ''Options'', Options default_options],
      ConsoleLog [Str ''[info]'', Str castle, Str ''Going to listen'', Port (Some 8443),
        Port (Some 8080)]] \<and>
   (\<exists>s'. run [Call_close False] listening_example = Some s' \<and>
         filter is_debug_obs (trace s') = [])"
proof -
  let ?s = "call_debug ''debug'' [Str ''Options'', Options default_options] (initial default_options)"
  have e: "enabled (Call_listen 8443 (Some 8080)) ?s" by simp
  have n: "new_Server default_config = Inr ?s" by (rule new_Server_default_config)
  note T = C9_debug_calls_null_disables [of default_config ?s "Call_listen 8443 (Some 8080)" ?s]
  have a: "filter is_debug_obs (trace (fire (Call_listen 8443 (Some 8080)) ?s))
   = [ConsoleLog [Str ''[debug]'', Str castle, Str ''Options'', Options default_options],
      ConsoleLog [Str ''[info]'', Str castle, Str ''Going to listen'', Port (Some 8443),
        Port (Some 8080)]]"
    using T [THEN conjunct2, THEN conjunct1] e
    by (simp add: debug_call_def initial_def default_options_def del: fire.simps)
  have "\<exists>s'. run [Call_close False] listening_example = Some s'" by simp
  then obtain s' where r: "run [Call_close False] listening_example = Some s'" by blast
  have "filter is_debug_obs (trace s') = []"
    using C9_debug_calls_null_disables [where s = listening_example
        and evs = "[Call_close False]" and s' = s', THEN conjunct2, THEN conjunct2] r
    by (simp add: listening_example_def manual_options_def del: run.simps)
  with a r show ?thesis by blast
qed

theorem C9_counterexample:
  "p_debug default_config = None \<and>
   map_sum id trace (new_Server default_config) =
     Inr [ConsoleLog [Str ''[debug]'', Str castle, Str ''Options'', Options default_options]]"
  by (simp add: new_Server_default_config debug_call_def initial_def default_options_def)
    (simp add: default_config_def)
section \<open>Two calls of listen\<close>

lemma fire_callback_heap_length:
  "is_callback ev \<Longrightarrow> length (heap (fire ev s)) = length (heap s)"
  by (cases ev) simp_all

lemma run_callbacks_heap_length:
  "run evs s = Some s' \<Longrightarrow> \<forall>ev\<in>set evs. is_callback ev \<Longrightarrow>
   length (heap s') = length (heap s)"
  by (induction evs arbitrary: s) (auto split: if_splits simp: fire_callback_heap_length)

lemma close_loop_heap_closed:
  "h < length (heap s) \<Longrightarrow> h \<in> set hs \<or> closed (heap s ! h) \<Longrightarrow>
   closed (heap (close_loop now hs s) ! h)"
proof (induction hs arbitrary: s)
  case Nil
  then show ?case by simp
next
  case (Cons h' hs)
  let ?s = "if now then destroy h' s else server_close h' s"
  have hp: "heap ?s = (heap s)[h' := node_close (heap s ! h')]" by simp
  have len: "h < length (heap ?s)" using Cons.prems(1) by (simp add: hp)
  have "h \<in> set hs \<or> closed (heap ?s ! h)"
  proof (cases "h = h'")
    case True
    then show ?thesis using Cons.prems(1) by (simp add: hp)
  next
    case False
    then show ?thesis using Cons.prems(2) by (auto simp: hp)
  qed
  then have "closed (heap (close_loop now hs ?s) ! h)"
    by (rule Cons.IH [OF len])
  then show ?case by simp
qed

lemma close_heap:
  "heap (close now s) = heap (close_loop now (server s) (s\<lparr>portHttp := None, portHttps := None\<rparr>))"
  by (simp add: close_def Let_def)

lemma close_closes_all:
  "h \<in> set (server s) \<Longrightarrow> h < length (heap s) \<Longrightarrow> closed (heap (close now s) ! h)"
  unfolding close_heap by (rule close_loop_heap_closed) simp_all

lemma close_obs_CloseCall: "h \<in> set hs \<Longrightarrow> CloseCall h \<in> set (close_obs now hp hs)"
  by (induction hs) auto

lemma close_calls_all:
  "h \<in> set (server s) \<Longrightarrow> CloseCall h \<in> set (trace (close now s))"
  by (simp add: close_trace close_obs_CloseCall)

lemma listen_keeps_closed:
  "h < length (heap s) \<Longrightarrow> closed (heap (listen https http s) ! h) = closed (heap s ! h)"
  by (simp add: listen_heap nth_append)

lemma listen_heap_length:
  "length (heap (listen https http s)) =
     length (heap s) + length (new_listeners (options s) https http)"
  by (simp add: listen_heap)

text \<open>
  C10. A second call of \<^verbatim>\<open>listen\<close>, with only callbacks in between and after, appends
  its server objects to \<^verbatim>\<open>_server\<close> after those of the first call and those that were
  there before; it closes no server object that existed. A call of \<^verbatim>\<open>close\<close> then takes
  the whole list: it calls \<^verbatim>\<open>close\<close> on each of its server objects and awaits them all.
\<close>

theorem C10_second_listen_appends:
  assumes "run evs1 (listen https1 http1 s) = Some s1"
    and "\<forall>ev\<in>set evs1. is_callback ev"
    and "run evs2 (listen https2 http2 s1) = Some s2"
    and "\<forall>ev\<in>set evs2. is_callback ev"
  shows "server s1 = server s @ [length (heap s) ..< length (heap s1)] \<and>
    server s2 = server s @ [length (heap s) ..< length (heap s1)] @
                [length (heap s1) ..< length (heap s2)] \<and>
    length (heap s1) = length (heap s) + length (new_listeners (options s) https1 http1) \<and>
    length (heap s2) = length (heap s1) + length (new_listeners (options s) https2 http2) \<and>
    (\<forall>h<length (heap s1). closed (heap s2 ! h) = closed (heap s1 ! h)) \<and>
    srvs (closes (close now s2) ! length (closes s2)) = server s2 \<and>
    length (promises (closes (close now s2) ! length (closes s2))) = length (server s2) \<and>
    server (close now s2) = [] \<and>
    (\<forall>h\<in>set (server s2). CloseCall h \<in> set (trace (close now s2))) \<and>
    (\<forall>h\<in>set (server s2). h < length (heap s2) \<longrightarrow> closed (heap (close now s2) ! h))"
proof -
  have o1: "options s1 = options s"
    using run_options [OF assms(1)] by simp
  have l1: "length (heap s1) = length (heap s) + length (new_listeners (options s) https1 http1)"
    using run_callbacks_heap_length [OF assms(1) assms(2)] by (simp add: listen_heap_length)
  have l2: "length (heap s2) = length (heap s1) + length (new_listeners (options s) https2 http2)"
    using run_callbacks_heap_length [OF assms(3) assms(4)] by (simp add: listen_heap_length o1)
  have a: "server s1 = server s @ [length (heap s) ..< length (heap s1)]"
    using run_callbacks_frame [OF assms(1) assms(2)] by (simp add: listen_server l1)
  have b: "server s2 = server s @ [length (heap s) ..< length (heap s1)] @
                [length (heap s1) ..< length (heap s2)]"
    using run_callbacks_frame [OF assms(3) assms(4)] by (simp add: listen_server a l2 o1)
  have c: "\<forall>h<length (heap s1). closed (heap s2 ! h) = closed (heap s1 ! h)"
    using run_callbacks_closed [OF assms(3) assms(4)] by (simp add: listen_keeps_closed)
  have d: "srvs (closes (close now s2) ! length (closes s2)) = server s2"
    "length (promises (closes (close now s2) ! length (closes s2))) = length (server s2)"
    "server (close now s2) = []"
    by simp_all
  have e: "\<forall>h\<in>set (server s2). CloseCall h \<in> set (trace (close now s2))"
    using close_calls_all by blast
  have f: "\<forall>h\<in>set (server s2). h < length (heap s2) \<longrightarrow> closed (heap (close now s2) ! h)"
    using close_closes_all by blast
  show ?thesis by (intro conjI a b l1 l2 c d e f)
qed

theorem C10_witness:
  "\<exists>s2. run [ListenCallback 1 Fallback None, ListenCallback 1 Main None]
           (listen 9443 (Some 9080) listening_example) = Some s2 \<and>
        server s2 = [0, 1, 2, 3] \<and>
        srvs (closes (close False s2) ! 0) = [0, 1, 2, 3]"
proof -
  have r1: "run [ListenCallback 0 Fallback None, ListenCallback 0 Main None]
      (listen 8443 (Some 8080) (initial manual_options)) = Some listening_example"
    using listening_example_run by simp
  have c: "\<forall>ev\<in>set [ListenCallback 0 Fallback None, ListenCallback 0 Main None]. is_callback ev"
    "\<forall>ev\<in>set [ListenCallback 1 Fallback None, ListenCallback 1 Main None]. is_callback ev"
    by simp_all
  have "\<exists>s2. run [ListenCallback 1 Fallback None, ListenCallback 1 Main None]
           (listen 9443 (Some 9080) listening_example) = Some s2 \<and> closes s2 = []"
    by (simp add: eval_defs listening_example_def manual_options_def)
  then obtain s2 where
    r2: "run [ListenCallback 1 Fallback None, ListenCallback 1 Main None]
           (listen 9443 (Some 9080) listening_example) = Some s2"
    and cl: "closes s2 = []"
    by blast
  note T = C10_second_listen_appends [OF r1 c(1) r2 c(2), of False]
  have l: "length (heap listening_example) = 2" "server (initial manual_options) = []"
    "heap (initial manual_options) = []"
    by (simp_all add: listening_example_def initial_def)
  have nl: "length (new_listeners (options (initial manual_options)) 9443 (Some 9080)) = 2"
    by (simp add: new_listeners_def initial_def manual_options_def)
  have len2: "length (heap s2) = 4"
    using T [THEN conjunct2, THEN conjunct2, THEN conjunct2, THEN conjunct1]
    by (simp add: l nl)
  have s: "server s2 = [0, 1, 2, 3]"
    using T [THEN conjunct2, THEN conjunct1]
    by (simp add: l len2 upt_rec)
  have "srvs (closes (close False s2) ! 0) = [0, 1, 2, 3]"
    using T [THEN conjunct2, THEN conjunct2, THEN conjunct2, THEN conjunct2, THEN conjunct2,
      THEN conjunct1]
    by (simp add: cl s)
  with r2 s show ?thesis by blast
qed
section \<open>Registries in reachable states\<close>

lemma set_delete: "set (AList.delete k al) = {p \<in> set al. fst p \<noteq> k}"
  by (auto simp: AList.delete_eq)

lemma set_update:
  "distinct (map fst al) \<Longrightarrow> p \<in> set (AList.update k v al) \<Longrightarrow>
   p = (k, v) \<or> (p \<in> set al \<and> fst p \<noteq> k)"
proof (induction al)
  case Nil
  then show ?case by simp
next
  case (Cons q al)
  show ?case
  proof (cases "fst q = k")
    case True
    then have "p = (k, v) \<or> p \<in> set al" using Cons.prems(2) by simp
    moreover have "fst p \<noteq> k" if "p \<in> set al"
      using that Cons.prems(1) True by (auto simp: image_iff)
    ultimately show ?thesis by auto
  next
    case False
    then have "p = q \<or> p \<in> set (AList.update k v al)" using Cons.prems(2) by simp
    then show ?thesis using Cons.IH Cons.prems(1) False by auto
  qed
qed

lemma socket_destroy_sockets:
  "length (sockets (socket_destroy c s)) = length (sockets s)"
  "conn_key (sockets (socket_destroy c s) ! c') = conn_key (sockets s ! c')"
  "accepted_by (sockets (socket_destroy c s) ! c') = accepted_by (sockets s ! c')"
  "status (sockets (socket_destroy c s) ! c') = Closed \<longleftrightarrow> status (sockets s ! c') = Closed"
  "status (sockets s ! c') = Destroyed \<Longrightarrow> status (sockets (socket_destroy c s) ! c') = Destroyed"
  by (cases "c < length (sockets s)"; cases "c = c'";
      simp add: socket_destroy_def conn_key_def list_update_beyond not_less)+

lemma fold_socket_destroy_sockets:
  "length (sockets (fold socket_destroy cs s)) = length (sockets s)"
  "conn_key (sockets (fold socket_destroy cs s) ! c') = conn_key (sockets s ! c')"
  "accepted_by (sockets (fold socket_destroy cs s) ! c') = accepted_by (sockets s ! c')"
  "status (sockets (fold socket_destroy cs s) ! c') = Closed \<longleftrightarrow> status (sockets s ! c') = Closed"
  by (induction cs arbitrary: s; simp add: socket_destroy_sockets)+

lemma fold_socket_destroy_keeps:
  "status (sockets s ! c') = Destroyed \<Longrightarrow>
   status (sockets (fold socket_destroy cs s) ! c') = Destroyed"
  by (induction cs arbitrary: s) (simp_all add: socket_destroy_sockets)

lemma socket_destroy_destroys:
  "c < length (sockets s) \<Longrightarrow> status (sockets s ! c) \<noteq> Closed \<Longrightarrow>
   status (sockets (socket_destroy c s) ! c) = Destroyed"
  by (cases "status (sockets s ! c)") (simp_all add: socket_destroy_def)

lemma fold_socket_destroy_destroys:
  "c \<in> set cs \<Longrightarrow> c < length (sockets s) \<Longrightarrow> status (sockets s ! c) \<noteq> Closed \<Longrightarrow>
   status (sockets (fold socket_destroy cs s) ! c) = Destroyed"
proof (induction cs arbitrary: s)
  case Nil
  then show ?case by simp
next
  case (Cons c' cs)
  show ?case
  proof (cases "c = c'")
    case True
    have "status (sockets (socket_destroy c s) ! c) = Destroyed"
      by (rule socket_destroy_destroys [OF Cons.prems(2,3)])
    then show ?thesis using True by (simp add: fold_socket_destroy_keeps)
  next
    case False
    then have "c \<in> set cs" using Cons.prems(1) by simp
    then have "status (sockets (fold socket_destroy cs (socket_destroy c' s)) ! c) = Destroyed"
      using Cons.prems(2,3) by (intro Cons.IH) (simp_all add: socket_destroy_sockets)
    then show ?thesis by simp
  qed
qed

lemma server_close_sockets [simp]: "sockets (server_close h s) = sockets s"
  by simp

lemma destroy_sockets:
  "length (sockets (destroy h s)) = length (sockets s)"
  "conn_key (sockets (destroy h s) ! c') = conn_key (sockets s ! c')"
  "accepted_by (sockets (destroy h s) ! c') = accepted_by (sockets s ! c')"
  "status (sockets (destroy h s) ! c') = Closed \<longleftrightarrow> status (sockets s ! c') = Closed"
  by (simp_all add: destroy_def fold_socket_destroy_sockets)

lemma close_loop_sockets:
  "length (sockets (close_loop now hs s)) = length (sockets s)"
  "conn_key (sockets (close_loop now hs s) ! c') = conn_key (sockets s ! c')"
  "accepted_by (sockets (close_loop now hs s) ! c') = accepted_by (sockets s ! c')"
  "status (sockets (close_loop now hs s) ! c') = Closed \<longleftrightarrow> status (sockets s ! c') = Closed"
  by (induction hs arbitrary: s; simp add: destroy_sockets)+

lemma close_step_heap:
  "heap (if now then destroy h s else server_close h s) =
     (heap s)[h := node_close (heap s ! h)]"
  by simp

lemma close_loop_connections:
  "connections (heap (close_loop now hs s) ! h) = connections (heap s ! h)"
proof (induction hs arbitrary: s)
  case Nil
  show ?case by simp
next
  case (Cons h' hs)
  have "connections ((heap s)[h' := node_close (heap s ! h')] ! h) =
      connections (heap s ! h)"
    by (rule nth_update_field [where P = connections]) simp
  then show ?case
    unfolding close_loop.simps Cons.IH close_step_heap .
qed

lemma close_loop_open_sockets:
  "open_sockets (heap (close_loop now hs s) ! h) = open_sockets (heap s ! h)"
proof (induction hs arbitrary: s)
  case Nil
  show ?case by simp
next
  case (Cons h' hs)
  have "open_sockets ((heap s)[h' := node_close (heap s ! h')] ! h) =
      open_sockets (heap s ! h)"
    by (rule nth_update_field [where P = open_sockets]) simp
  then show ?case
    unfolding close_loop.simps Cons.IH close_step_heap .
qed
lemma entry_ok_transfer:
  assumes "entry_ok s h kc"
    and "length (sockets s) \<le> length (sockets s')"
    and "conn_key (sockets s' ! snd kc) = conn_key (sockets s ! snd kc)"
    and "accepted_by (sockets s' ! snd kc) = accepted_by (sockets s ! snd kc)"
    and "status (sockets s' ! snd kc) = Closed \<longleftrightarrow> status (sockets s ! snd kc) = Closed"
    and "snd kc \<in> set (open_sockets (heap s ! h)) \<Longrightarrow> snd kc \<in> set (open_sockets (heap s' ! h))"
  shows "entry_ok s' h kc"
  using assms by (simp add: entry_ok_def)

lemma well_formedI:
  assumes "\<And>h. h \<in> set (server s) \<Longrightarrow> h < length (heap s)"
    and "\<And>h. h < length (heap s) \<Longrightarrow> distinct (map fst (connections (heap s ! h)))"
    and "\<And>h kc. h < length (heap s) \<Longrightarrow> kc \<in> set (connections (heap s ! h)) \<Longrightarrow> entry_ok s h kc"
  shows "well_formed s"
  unfolding well_formed_def using assms by blast

lemma well_formedD:
  assumes "well_formed s"
  shows "h \<in> set (server s) \<Longrightarrow> h < length (heap s)"
    and "h < length (heap s) \<Longrightarrow> distinct (map fst (connections (heap s ! h)))"
    and "h < length (heap s) \<Longrightarrow> kc \<in> set (connections (heap s ! h)) \<Longrightarrow> entry_ok s h kc"
  using assms unfolding well_formed_def by blast+

lemma well_formed_initial: "well_formed (initial opts)"
  by (simp add: well_formed_def initial_def)

lemma well_formed_call_debug: "well_formed s \<Longrightarrow> well_formed (call_debug level args s)"
  by (simp add: well_formed_def entry_ok_def)

lemma well_formed_listen:
  assumes "well_formed s"
  shows "well_formed (listen https http s)"
proof (rule well_formedI)
  let ?s = "listen https http s"
  let ?new = "new_listeners (options s) https http"
  fix h assume "h \<in> set (server ?s)"
  then have "h \<in> set (server s) \<or>
      h < length (heap s) + length (new_listeners (options s) https http)"
    by (auto simp: listen_server)
  then show "h < length (heap ?s)"
    using well_formedD(1) [OF assms, of h] by (auto simp: listen_heap)
next
  let ?s = "listen https http s"
  let ?new = "new_listeners (options s) https http"
  fix h assume h: "h < length (heap ?s)"
  show "distinct (map fst (connections (heap ?s ! h)))"
  proof (cases "h < length (heap s)")
    case True
    then show ?thesis using well_formedD(2) [OF assms] by (simp add: listen_heap nth_append)
  next
    case False
    then show ?thesis using h by (simp add: listen_heap nth_append enableDestroy_def)
  qed
next
  let ?s = "listen https http s"
  fix h kc assume h: "h < length (heap ?s)" and kc: "kc \<in> set (connections (heap ?s ! h))"
  show "entry_ok ?s h kc"
  proof (cases "h < length (heap s)")
    case True
    then have same: "heap ?s ! h = heap s ! h" by (simp add: listen_heap nth_append)
    have "entry_ok s h kc" using well_formedD(3) [OF assms True] kc by (simp add: same)
    then show ?thesis by (rule entry_ok_transfer) (simp_all add: same)
  next
    case False
    then have "connections (heap ?s ! h) = []"
      using h by (simp add: listen_heap nth_append enableDestroy_def)
    then show ?thesis using kc by simp
  qed
qed

lemma close_sockets:
  "sockets (close now s) =
     sockets (close_loop now (server s) (s\<lparr>portHttp := None, portHttps := None\<rparr>))"
  by (simp add: close_def Let_def)

lemma well_formed_close:
  assumes "well_formed s"
  shows "well_formed (close now s)"
proof (rule well_formedI)
  fix h assume "h \<in> set (server (close now s))"
  then show "h < length (heap (close now s))" by simp
next
  fix h assume "h < length (heap (close now s))"
  then show "distinct (map fst (connections (heap (close now s) ! h)))"
    using well_formedD(2) [OF assms, of h] by (simp add: close_heap close_loop_connections)
next
  fix h kc
  assume h: "h < length (heap (close now s))"
    and kc: "kc \<in> set (connections (heap (close now s) ! h))"
  have "entry_ok s h kc"
    using well_formedD(3) [OF assms, of h kc] h kc by (simp add: close_heap close_loop_connections)
  then show "entry_ok (close now s) h kc"
    by (rule entry_ok_transfer)
      (simp_all add: close_sockets close_loop_sockets close_heap close_loop_open_sockets)
qed

lemma well_formed_listen_callback:
  assumes "well_formed s"
  shows "well_formed (listen_callback k r err s)"
proof -
  let ?s = "listen_callback k r err s"
  have c: "connections (heap ?s ! h) = connections (heap s ! h)" for h
    unfolding listen_callback_heap
    by (cases "srv_of r (listens s ! k)")
      (simp_all add: nth_update_field [where P = connections and f = "\<lambda>v. v\<lparr>bound := True\<rparr>"])
  have o: "open_sockets (heap ?s ! h) = open_sockets (heap s ! h)" for h
    unfolding listen_callback_heap
    by (cases "srv_of r (listens s ! k)")
      (simp_all add: nth_update_field [where P = open_sockets and f = "\<lambda>v. v\<lparr>bound := True\<rparr>"])
  show ?thesis
  proof (rule well_formedI)
    fix h assume "h \<in> set (server ?s)"
    then show "h < length (heap ?s)" using well_formedD(1) [OF assms] by simp
  next
    fix h assume "h < length (heap ?s)"
    then show "distinct (map fst (connections (heap ?s ! h)))"
      using well_formedD(2) [OF assms, of h] by (simp add: c)
  next
    fix h kc assume "h < length (heap ?s)" and "kc \<in> set (connections (heap ?s ! h))"
    then have "entry_ok s h kc" using well_formedD(3) [OF assms, of h kc] by (simp add: c)
    then show "entry_ok ?s h kc" by (rule entry_ok_transfer) (simp_all add: o)
  qed
qed

lemma well_formed_close_callback: "well_formed s \<Longrightarrow> well_formed (close_callback k i err s)"
  by (simp add: well_formed_def entry_ok_def)

lemma well_formed_server_error:
  assumes "well_formed s"
  shows "well_formed (server_error h0 e s)"
proof -
  let ?s = "server_error h0 e s"
  have c: "connections (heap ?s ! h) = connections (heap s ! h)" for h
    unfolding server_error_simps by (rule nth_update_field [where P = connections]) simp
  have o: "open_sockets (heap ?s ! h) = open_sockets (heap s ! h)" for h
    unfolding server_error_simps by (rule nth_update_field [where P = open_sockets]) simp
  show ?thesis
  proof (rule well_formedI)
    fix h assume "h \<in> set (server ?s)"
    then show "h < length (heap ?s)" using well_formedD(1) [OF assms] by simp
  next
    fix h assume "h < length (heap ?s)"
    then show "distinct (map fst (connections (heap ?s ! h)))"
      using well_formedD(2) [OF assms, of h] by (simp add: c del: server_error_simps(5))
  next
    fix h kc assume "h < length (heap ?s)" and "kc \<in> set (connections (heap ?s ! h))"
    then have "entry_ok s h kc"
      using well_formedD(3) [OF assms, of h kc] by (simp add: c del: server_error_simps(5))
    then show "entry_ok ?s h kc"
      by (rule entry_ok_transfer) (simp_all add: o del: server_error_simps(5))
  qed
qed

lemma well_formed_connection:
  assumes "well_formed s" and h0: "h0 < length (heap s)"
  shows "well_formed (connection h0 a p s)"
proof -
  let ?s = "connection h0 a p s"
  let ?conn = "\<lparr>remoteAddress = a, remotePort = p, status = Open, accepted_by = h0\<rparr>"
  let ?c = "length (sockets s)"
  let ?v = "heap s ! h0"
  have hp: "heap ?s = (heap s)[h0 := ?v\<lparr>connections :=
        AList.update (conn_key ?conn) ?c (connections ?v),
      open_sockets := open_sockets ?v @ [?c]\<rparr>]"
    by (rule connection_heap)
  have sk: "sockets ?s = sockets s @ [?conn]" by simp
  have at0: "connections (heap ?s ! h0) = AList.update (conn_key ?conn) ?c (connections ?v)"
    "open_sockets (heap ?s ! h0) = open_sockets ?v @ [?c]"
    using h0 by (simp_all add: hp)
  have other: "heap ?s ! h = heap s ! h" if "h \<noteq> h0" for h
    using that by (simp add: hp)
  have old: "entry_ok ?s h kc" if "entry_ok s h kc" for h kc
  proof -
    from that have c: "snd kc < length (sockets s)" by (simp add: entry_ok_def)
    have o: "snd kc \<in> set (open_sockets (heap s ! h)) \<Longrightarrow>
        snd kc \<in> set (open_sockets (heap ?s ! h))"
      by (cases "h = h0") (simp_all add: at0 other)
    show ?thesis
      using that by (rule entry_ok_transfer) (simp_all add: sk nth_append c o)
  qed
  show ?thesis
  proof (rule well_formedI)
    fix h assume "h \<in> set (server ?s)"
    then show "h < length (heap ?s)" using well_formedD(1) [OF assms(1)] by simp
  next
    fix h assume h: "h < length (heap ?s)"
    show "distinct (map fst (connections (heap ?s ! h)))"
    proof (cases "h = h0")
      case True
      then show ?thesis using well_formedD(2) [OF assms(1) h0] by (simp add: at0 distinct_update)
    next
      case False
      then show ?thesis using well_formedD(2) [OF assms(1), of h] h by (simp add: other)
    qed
  next
    fix h kc assume h: "h < length (heap ?s)" and kc: "kc \<in> set (connections (heap ?s ! h))"
    show "entry_ok ?s h kc"
    proof (cases "h = h0")
      case False
      then have "entry_ok s h kc" using well_formedD(3) [OF assms(1), of h kc] h kc by (simp add: other)
      then show ?thesis by (rule old)
    next
      case True
      then have "kc \<in> set (AList.update (conn_key ?conn) ?c (connections ?v))"
        using kc by (simp add: at0)
      then have "kc = (conn_key ?conn, ?c) \<or> kc \<in> set (connections ?v)"
        using set_update [OF well_formedD(2) [OF assms(1) h0]] by blast
      then show ?thesis
      proof
        assume "kc = (conn_key ?conn, ?c)"
        then show ?thesis using True by (simp add: entry_ok_def sk at0 conn_key_def)
      next
        assume "kc \<in> set (connections ?v)"
        then have "entry_ok s h0 kc" by (rule well_formedD(3) [OF assms(1) h0])
        then show ?thesis using True old by simp
      qed
    qed
  qed
qed

lemma well_formed_socket_close:
  assumes "well_formed s" and c0: "c0 < length (sockets s)"
    and h0: "accepted_by (sockets s ! c0) < length (heap s)"
  shows "well_formed (socket_close c0 s)"
proof -
  let ?s = "socket_close c0 s"
  let ?h0 = "accepted_by (sockets s ! c0)"
  let ?k0 = "conn_key (sockets s ! c0)"
  let ?v = "heap s ! ?h0"
  have hp: "heap ?s = (heap s)[?h0 := ?v\<lparr>connections := AList.delete ?k0 (connections ?v),
      open_sockets := removeAll c0 (open_sockets ?v)\<rparr>]"
    by (rule socket_close_heap)
  have sk: "sockets ?s = (sockets s)[c0 := (sockets s ! c0)\<lparr>status := Closed\<rparr>]" by simp
  have at0: "connections (heap ?s ! ?h0) = AList.delete ?k0 (connections ?v)"
    "open_sockets (heap ?s ! ?h0) = removeAll c0 (open_sockets ?v)"
    using h0 by (simp_all add: hp)
  have other: "heap ?s ! h = heap s ! h" if "h \<noteq> ?h0" for h
    using that by (simp add: hp)
  have keep: "entry_ok ?s h kc" if e: "entry_ok s h kc" and n: "snd kc \<noteq> c0" for h kc
  proof -
    have o: "snd kc \<in> set (open_sockets (heap s ! h)) \<Longrightarrow>
        snd kc \<in> set (open_sockets (heap ?s ! h))"
      using n by (cases "h = ?h0") (simp_all add: at0 other)
    show ?thesis
      using e by (rule entry_ok_transfer) (simp_all add: sk n [symmetric] o)
  qed
  show ?thesis
  proof (rule well_formedI)
    fix h assume "h \<in> set (server ?s)"
    then show "h < length (heap ?s)" using well_formedD(1) [OF assms(1)] by simp
  next
    fix h assume h: "h < length (heap ?s)"
    show "distinct (map fst (connections (heap ?s ! h)))"
    proof (cases "h = ?h0")
      case True
      then show ?thesis using well_formedD(2) [OF assms(1) h0] by (simp add: at0 distinct_delete)
    next
      case False
      then show ?thesis using well_formedD(2) [OF assms(1), of h] h by (simp add: other)
    qed
  next
    fix h kc assume h: "h < length (heap ?s)" and kc: "kc \<in> set (connections (heap ?s ! h))"
    show "entry_ok ?s h kc"
    proof (cases "h = ?h0")
      case False
      then have e: "entry_ok s h kc" using well_formedD(3) [OF assms(1), of h kc] h kc by (simp add: other)
      then have "accepted_by (sockets s ! snd kc) = h" by (simp add: entry_ok_def)
      then have "snd kc \<noteq> c0" using False by auto
      then show ?thesis using e by (intro keep)
    next
      case True
      then have m: "kc \<in> set (connections ?v)" and k: "fst kc \<noteq> ?k0"
        using kc by (simp_all add: at0 set_delete)
      have e: "entry_ok s ?h0 kc" by (rule well_formedD(3) [OF assms(1) h0 m])
      then have "conn_key (sockets s ! snd kc) = fst kc" by (simp add: entry_ok_def)
      then have "snd kc \<noteq> c0" using k by auto
      then show ?thesis using e True by (simp add: keep)
    qed
  qed
qed

lemma well_formed_fire: "well_formed s \<Longrightarrow> enabled ev s \<Longrightarrow> well_formed (fire ev s)"
  by (cases ev)
    (simp_all add: well_formed_listen well_formed_close well_formed_listen_callback
      well_formed_close_callback well_formed_connection well_formed_socket_close
      well_formed_server_error)

lemma well_formed_run: "run evs s = Some s' \<Longrightarrow> well_formed s \<Longrightarrow> well_formed s'"
  by (induction evs arbitrary: s) (auto split: if_splits simp: well_formed_fire)

lemma well_formed_reachable:
  assumes "new_Server p = Inr s0" and "run evs s0 = Some s"
  shows "well_formed s"
proof -
  from assms(1) obtain opts where
    "s0 = call_debug ''debug'' [Str ''Options'', Options opts] (initial opts)"
    by (auto simp: new_Server_def split: sum.splits)
  then have "well_formed s0" by (simp add: well_formed_call_debug well_formed_initial)
  with assms(2) show ?thesis by (rule well_formed_run)
qed

section \<open>Server objects under every event\<close>

lemma nth_update_pres:
  assumes "P (xs ! h)" and "\<And>v. P v \<Longrightarrow> P (f v)"
  shows "P (xs[h' := f (xs ! h')] ! h)"
proof (cases "h' < length xs")
  case True
  then show ?thesis using assms by (cases "h' = h") simp_all
next
  case False
  then have "xs[h' := f (xs ! h')] = xs" by (simp add: not_less list_update_beyond)
  then show ?thesis using assms(1) by simp
qed

lemma close_loop_pres:
  assumes "\<And>v. P v \<Longrightarrow> P (node_close v)"
  shows "P (heap s ! h) \<Longrightarrow> P (heap (close_loop now hs s) ! h)"
proof (induction hs arbitrary: s)
  case Nil
  then show ?case by simp
next
  case (Cons h' hs)
  have "P ((heap s)[h' := node_close (heap s ! h')] ! h)"
    using Cons.prems assms by (rule nth_update_pres)
  then have "P (heap (if now then destroy h' s else server_close h' s) ! h)"
    unfolding close_step_heap .
  then show ?case unfolding close_loop.simps by (rule Cons.IH)
qed

lemma fire_heap_length: "length (heap s) \<le> length (heap (fire ev s))"
  by (cases ev) (simp_all add: listen_heap_length close_heap)

lemma fire_callback_pres:
  assumes cb: "is_callback ev" and p: "P (heap s ! h)"
    and b: "\<And>v. P v \<Longrightarrow> P (v\<lparr>bound := True\<rparr>)"
    and f: "\<And>v. P v \<Longrightarrow> P (v\<lparr>failed := True\<rparr>)"
    and r: "\<And>v cs os. P v \<Longrightarrow> P (v\<lparr>connections := cs, open_sockets := os\<rparr>)"
  shows "P (heap (fire ev s) ! h)"
proof (cases ev)
  case (Call_listen https http)
  then show ?thesis using cb by simp
next
  case (Call_close now)
  then show ?thesis using cb by simp
next
  case (ListenCallback k r' err)
  have "P ((heap s)[h' := (heap s ! h')\<lparr>bound := True\<rparr>] ! h)" for h'
    using p b by (rule nth_update_pres)
  then show ?thesis
    unfolding ListenCallback fire.simps listen_callback_heap
    using p by (cases "srv_of r' (listens s ! k)") simp_all
next
  case (CloseCallback k i err)
  show ?thesis using p by (simp add: CloseCallback)
next
  case (Connection h' a q)
  show ?thesis
    unfolding Connection fire.simps connection_heap using p r by (rule nth_update_pres)
next
  case (SocketClose c')
  show ?thesis
    unfolding SocketClose fire.simps socket_close_heap using p r by (rule nth_update_pres)
next
  case (ServerError h' e)
  show ?thesis
    unfolding ServerError fire.simps server_error_simps using p f by (rule nth_update_pres)
qed

lemma fire_pres:
  assumes p: "P (heap s ! h)" and h: "h < length (heap s)"
    and c: "\<And>v. P v \<Longrightarrow> P (node_close v)"
    and b: "\<And>v. P v \<Longrightarrow> P (v\<lparr>bound := True\<rparr>)"
    and f: "\<And>v. P v \<Longrightarrow> P (v\<lparr>failed := True\<rparr>)"
    and r: "\<And>v cs os. P v \<Longrightarrow> P (v\<lparr>connections := cs, open_sockets := os\<rparr>)"
  shows "P (heap (fire ev s) ! h)"
proof (cases "is_callback ev")
  case True
  then show ?thesis using p b f r by (rule fire_callback_pres)
next
  case False
  show ?thesis
  proof (cases ev)
    case (Call_listen https http)
    show ?thesis using p h by (simp add: Call_listen listen_heap nth_append)
  next
    case (Call_close now)
    have "P (heap (s\<lparr>portHttp := None, portHttps := None\<rparr>) ! h)" using p by simp
    then show ?thesis
      unfolding Call_close fire.simps close_heap using c by (rule close_loop_pres [rotated])
  qed (use False in simp_all)
qed

lemma run_pres:
  assumes c: "\<And>v. P v \<Longrightarrow> P (node_close v)"
    and b: "\<And>v. P v \<Longrightarrow> P (v\<lparr>bound := True\<rparr>)"
    and f: "\<And>v. P v \<Longrightarrow> P (v\<lparr>failed := True\<rparr>)"
    and r: "\<And>v cs os. P v \<Longrightarrow> P (v\<lparr>connections := cs, open_sockets := os\<rparr>)"
  shows "run evs s = Some s' \<Longrightarrow> h < length (heap s) \<Longrightarrow> P (heap s ! h) \<Longrightarrow>
    h < length (heap s') \<and> P (heap s' ! h)"
proof (induction evs arbitrary: s)
  case Nil
  then show ?case by simp
next
  case (Cons ev evs)
  from Cons.prems(1) have run: "run evs (fire ev s) = Some s'"
    by (simp split: if_splits)
  have len: "h < length (heap (fire ev s))"
    using Cons.prems(2) fire_heap_length [of s ev] by simp
  have "P (heap (fire ev s) ! h)"
    using Cons.prems(3) Cons.prems(2) c b f r by (rule fire_pres)
  with run len show ?case by (rule Cons.IH)
qed

lemma run_bound:
  "run evs s = Some s' \<Longrightarrow> h < length (heap s) \<Longrightarrow> bound (heap s ! h) \<Longrightarrow>
   h < length (heap s') \<and> bound (heap s' ! h)"
  by (rule run_pres [where P = bound]) simp_all

lemma run_failed:
  "run evs s = Some s' \<Longrightarrow> h < length (heap s) \<Longrightarrow> failed (heap s ! h) \<Longrightarrow>
   h < length (heap s') \<and> failed (heap s' ! h)"
  by (rule run_pres [where P = failed]) simp_all

lemma run_closed:
  "run evs s = Some s' \<Longrightarrow> h < length (heap s) \<Longrightarrow> closed (heap s ! h) \<Longrightarrow>
   h < length (heap s') \<and> closed (heap s' ! h)"
  by (rule run_pres [where P = closed]) simp_all

lemma run_no_listen_errors: "run evs s = Some s' \<Longrightarrow> listen_errors k evs = []"
proof (induction evs arbitrary: s)
  case Nil
  show ?case by simp
next
  case (Cons ev evs)
  from Cons.prems have en: "enabled ev s" and run: "run evs (fire ev s) = Some s'"
    by (simp_all split: if_splits)
  have "listen_errors k (ev # evs) = listen_errors k evs"
  proof (cases ev)
    case (ListenCallback k' r err)
    then have "err = None" using en by simp
    then show ?thesis by (simp add: ListenCallback)
  qed simp_all
  then show ?case using Cons.IH [OF run] by simp
qed

lemma callback_binds:
  assumes run: "run evs s1 = Some s'" and inv0: "listen_inv k op0 [] s1"
    and srv: "srv_of r op0 = Some h" and m: "ListenCallback k r None \<in> set evs"
  shows "h < length (heap s') \<and> bound (heap s' ! h)"
proof -
  from m obtain evs1 evs2 where evs: "evs = evs1 @ ListenCallback k r None # evs2"
    by (auto simp: in_set_conv_decomp)
  from run obtain t where t: "run evs1 s1 = Some t"
    and rest: "run (ListenCallback k r None # evs2) t = Some s'"
    by (auto simp: evs run_append)
  from rest have en: "enabled (ListenCallback k r None) t"
    and r2: "run evs2 (fire (ListenCallback k r None) t) = Some s'"
    by (auto split: if_splits)
  have s: "srv_of r (listens t ! k) = Some h"
    using listen_invD(2) [OF listen_run_inv [OF inv0 t]] srv by simp
  then have b: "bound (heap (fire (ListenCallback k r None) t) ! h)"
    using listen_callback_binds [OF en] by simp
  have "h < length (heap t)" using en s by simp
  then have "h < length (heap (fire (ListenCallback k r None) t))" by simp
  then show ?thesis using b by (rule run_bound [OF r2])
qed

lemma error_excludes_callback:
  assumes run: "run evs s1 = Some s'" and inv0: "listen_inv k op0 [] s1"
    and srv: "srv_of r op0 = Some h" and e: "ServerError h e \<in> set evs"
  shows "ListenCallback k r None \<notin> set evs"
proof
  assume m: "ListenCallback k r None \<in> set evs"
  from e obtain evs1 evs2 where evs: "evs = evs1 @ ServerError h e # evs2"
    by (auto simp: in_set_conv_decomp)
  from run obtain t where t: "run evs1 s1 = Some t"
    and rest: "run (ServerError h e # evs2) t = Some s'"
    by (auto simp: evs run_append)
  from rest have en: "enabled (ServerError h e) t"
    and r2: "run evs2 (fire (ServerError h e) t) = Some s'"
    by (auto split: if_splits)
  from m have "ListenCallback k r None \<in> set evs1 \<or> ListenCallback k r None \<in> set evs2"
    by (auto simp: evs)
  then show False
  proof
    assume "ListenCallback k r None \<in> set evs1"
    then have "bound (heap t ! h)" using callback_binds [OF t inv0 srv] by simp
    then show False using en by simp
  next
    assume "ListenCallback k r None \<in> set evs2"
    then obtain a b where evs2: "evs2 = a @ ListenCallback k r None # b"
      by (auto simp: in_set_conv_decomp)
    from r2 obtain u where u: "run a (fire (ServerError h e) t) = Some u"
      and en2: "enabled (ListenCallback k r None) u"
      by (auto simp: evs2 run_append split: if_splits)
    have "run (evs1 @ ServerError h e # a) s1 = Some u"
      using t en u by (simp add: run_append)
    then have s: "srv_of r (listens u ! k) = Some h"
      using listen_invD(2) [OF listen_run_inv [OF inv0]] srv by simp
    have h: "h < length (heap (fire (ServerError h e) t))" using en by simp
    have "failed (heap (fire (ServerError h e) t) ! h)" using en by simp
    then have "failed (heap u ! h)" using run_failed [OF u h] by simp
    then show False using en2 s by simp
  qed
qed

text \<open>
  C7. With certificates given by the caller and a plaintext port, \<^verbatim>\<open>listen\<close> calls
  \<^verbatim>\<open>listen\<close> on two server objects. Whatever happens afterwards, the promise of the call
  is never rejected; and once one of the two server objects has emitted \<^verbatim>\<open>error\<close> because
  its \<^verbatim>\<open>listen\<close> failed, the promise stays pending for ever: the call neither fails nor
  returns. While only callbacks and events come, both server objects stay in \<^verbatim>\<open>_server\<close>,
  and one whose callback has come is listening and has not been closed.
\<close>

theorem C7_bind_failure_leaves_listen_pending:
  assumes "ssl (options s) = Manual key' cert' a"
    and "run evs (listen https (Some p) s) = Some s'"
  shows "(\<forall>e. listen_promise (length (listens s)) s' \<noteq> Rejected e) \<and>
    (\<forall>e. ServerError (length (heap s)) e \<in> set evs \<longrightarrow>
       listen_promise (length (listens s)) s' = Pending) \<and>
    (\<forall>e. ServerError (Suc (length (heap s))) e \<in> set evs \<longrightarrow>
       listen_promise (length (listens s)) s' = Pending) \<and>
    ((\<forall>ev\<in>set evs. is_callback ev) \<longrightarrow>
       server s' = server s @ [length (heap s), Suc (length (heap s))] \<and>
       (ListenCallback (length (listens s)) Fallback None \<in> set evs \<longrightarrow>
          running (heap s' ! length (heap s))) \<and>
       (ListenCallback (length (listens s)) Main None \<in> set evs \<longrightarrow>
          running (heap s' ! Suc (length (heap s)))))"
proof -
  let ?k = "length (listens s)"
  let ?n = "length (heap s)"
  let ?s1 = "listen https (Some p) s"
  let ?op0 = "new_listen_op (options s) ?n (Some p)"
  have nl: "new_listeners (options s) https (Some p) =
      [RedirectListener p, SpdyListener (spdyOptions (options s)) (Some https)]"
    using assms(1) by (simp add: new_listeners_def)
  have op0: "?op0 = \<lparr>main = Pending, main_srv = Some (Suc ?n), fallback = Pending,
      fallback_srv = Some ?n, listen_result = Pending\<rparr>"
    using assms(1) by (simp add: new_listen_op_def)
  have srv: "srv_of Fallback ?op0 = Some ?n" "srv_of Main ?op0 = Some (Suc ?n)"
    by (simp_all add: op0 srv_of_def)
  have heap1: "heap ?s1 = heap s @ [enableDestroy (RedirectListener p),
      enableDestroy (SpdyListener (spdyOptions (options s)) (Some https))]"
    by (simp add: listen_heap nl)
  have server1: "server ?s1 = server s @ [?n, Suc ?n]"
    by (simp add: listen_server nl)
  have inv0: "listen_inv ?k ?op0 [] ?s1"
    by (rule listen_inv_init [OF fresh_op_new]) (simp_all add: listen_listens)
  note inv = listen_run_inv [OF inv0 assms(2)]
  note D = listen_invD [OF inv]
  have ne: "listen_errors ?k evs = []" using assms(2) by (rule run_no_listen_errors)
  have p0: "listen_result ?op0 = Pending" by (simp add: op0)
  have res: "if is_resolved (main (listens s' ! ?k)) \<and> is_resolved (fallback (listens s' ! ?k))
      then is_resolved (listen_result (listens s' ! ?k))
      else listen_result (listens s' ! ?k) = Pending"
    using D(8) p0 ne by blast
  have a: "\<forall>e. listen_promise ?k s' \<noteq> Rejected e"
  proof (intro allI notI)
    fix e assume "listen_promise ?k s' = Rejected e"
    then have "listen_result (listens s' ! ?k) = Rejected e" by (simp add: listen_promise_def)
    then show False using res by (simp split: if_splits)
  qed
  have pend: "listen_promise ?k s' = Pending" if "ListenCallback ?k r None \<notin> set evs" for r
  proof -
    have "srv_of r ?op0 \<noteq> None" using srv by (cases r) simp_all
    then have "\<not> is_resolved (promise_of r (listens s' ! ?k))" using D(5) that by blast
    then have "\<not> (is_resolved (main (listens s' ! ?k)) \<and>
        is_resolved (fallback (listens s' ! ?k)))"
      by (cases r) (simp_all add: promise_of_def)
    then show ?thesis using res by (simp add: listen_promise_def)
  qed
  have b: "\<forall>e. ServerError ?n e \<in> set evs \<longrightarrow> listen_promise ?k s' = Pending"
    using error_excludes_callback [OF assms(2) inv0 srv(1)] pend by blast
  have c: "\<forall>e. ServerError (Suc ?n) e \<in> set evs \<longrightarrow> listen_promise ?k s' = Pending"
    using error_excludes_callback [OF assms(2) inv0 srv(2)] pend by blast
  have d: "(\<forall>ev\<in>set evs. is_callback ev) \<longrightarrow>
       server s' = server s @ [?n, Suc ?n] \<and>
       (ListenCallback ?k Fallback None \<in> set evs \<longrightarrow> running (heap s' ! ?n)) \<and>
       (ListenCallback ?k Main None \<in> set evs \<longrightarrow> running (heap s' ! Suc ?n))"
  proof
    assume cb: "\<forall>ev\<in>set evs. is_callback ev"
    have d1: "server s' = server s @ [?n, Suc ?n]"
      using run_callbacks_frame [OF assms(2) cb] server1 by simp
    have open0: "\<not> closed (heap s' ! ?n)"
      using run_callbacks_closed [OF assms(2) cb, of ?n]
      by (simp add: heap1 enableDestroy_def)
    have open1: "\<not> closed (heap s' ! Suc ?n)"
      using run_callbacks_closed [OF assms(2) cb, of "Suc ?n"]
      by (simp add: heap1 enableDestroy_def nth_append)
    have d2: "ListenCallback ?k Fallback None \<in> set evs \<longrightarrow> running (heap s' ! ?n)"
      using callback_binds [OF assms(2) inv0 srv(1)] open0 by (simp add: running_def)
    have d3: "ListenCallback ?k Main None \<in> set evs \<longrightarrow> running (heap s' ! Suc ?n)"
      using callback_binds [OF assms(2) inv0 srv(2)] open1 by (simp add: running_def)
    show "server s' = server s @ [?n, Suc ?n] \<and>
       (ListenCallback ?k Fallback None \<in> set evs \<longrightarrow> running (heap s' ! ?n)) \<and>
       (ListenCallback ?k Main None \<in> set evs \<longrightarrow> running (heap s' ! Suc ?n))"
      by (intro conjI d1 d2 d3)
  qed
  show ?thesis by (intro conjI a b c d)
qed

theorem C7_witness:
  "\<exists>s'. run [ListenCallback 0 Fallback None, ServerError 1 (Error ''listen EADDRINUSE'')]
           (listen 8443 (Some 8080) (initial manual_options)) = Some s' \<and>
        listen_promise 0 s' = Pending \<and>
        server s' = [0, 1] \<and> running (heap s' ! 0)"
proof -
  have "\<exists>s'. run [ListenCallback 0 Fallback None, ServerError 1 (Error ''listen EADDRINUSE'')]
           (listen 8443 (Some 8080) (initial manual_options)) = Some s'"
    by (simp add: eval_defs manual_options_def)
  then obtain s' where
    h: "run [ListenCallback 0 Fallback None, ServerError 1 (Error ''listen EADDRINUSE'')]
          (listen 8443 (Some 8080) (initial manual_options)) = Some s'"
    by blast
  have m: "ssl (options (initial manual_options)) = Manual ''key'' ''cert'' True"
    by (simp add: initial_def manual_options_def)
  have l: "listens (initial manual_options) = []" "heap (initial manual_options) = []"
    "server (initial manual_options) = []"
    by (simp_all add: initial_def)
  note T = C7_bind_failure_leaves_listen_pending [OF m h]
  have "listen_promise 0 s' = Pending"
    using T [THEN conjunct2, THEN conjunct2, THEN conjunct1] by (simp add: l)
  moreover have "server s' = [0, 1]"
    using T [THEN conjunct2, THEN conjunct2, THEN conjunct2] by (simp add: l)
  moreover have "running (heap s' ! 0)"
    using T [THEN conjunct2, THEN conjunct2, THEN conjunct2] by (simp add: l)
  ultimately show ?thesis using h by blast
qed

section \<open>Which calls of close fail\<close>

lemma distinct_server_fire:
  assumes "well_formed s" and "distinct (server s)"
  shows "distinct (server (fire ev s))"
proof (cases ev)
  case (Call_listen https http)
  have "\<forall>h\<in>set (server s). h < length (heap s)" using well_formedD(1) [OF assms(1)] by blast
  then show ?thesis using assms(2) by (auto simp: Call_listen listen_server)
qed (simp_all add: assms(2))

lemma distinct_server_run:
  "run evs s = Some s' \<Longrightarrow> well_formed s \<Longrightarrow> distinct (server s) \<Longrightarrow> distinct (server s')"
proof (induction evs arbitrary: s)
  case Nil
  then show ?case by simp
next
  case (Cons ev evs)
  from Cons.prems(1) have en: "enabled ev s" and run: "run evs (fire ev s) = Some s'"
    by (simp_all split: if_splits)
  have w: "well_formed (fire ev s)" using Cons.prems(2) en by (rule well_formed_fire)
  have d: "distinct (server (fire ev s))"
    using Cons.prems(2) Cons.prems(3) by (rule distinct_server_fire)
  from run w d show ?case by (rule Cons.IH)
qed

lemma distinct_server_reachable:
  assumes "new_Server p = Inr s0" and "run evs s0 = Some s"
  shows "distinct (server s)"
proof -
  from assms(1) obtain opts where
    s0: "s0 = call_debug ''debug'' [Str ''Options'', Options opts] (initial opts)"
    by (auto simp: new_Server_def split: sum.splits)
  have w: "well_formed s0" by (simp add: s0 well_formed_call_debug well_formed_initial)
  have d: "distinct (server s0)" by (simp add: s0 initial_def)
  from assms(2) w d show ?thesis by (rule distinct_server_run)
qed

lemma close_loop_other:
  "h \<notin> set hs \<Longrightarrow> heap (close_loop now hs s) ! h = heap s ! h"
proof (induction hs arbitrary: s)
  case Nil
  show ?case by simp
next
  case (Cons h' hs)
  from Cons.prems have n: "h' \<noteq> h" and m: "h \<notin> set hs" by auto
  have "heap (close_loop now hs (if now then destroy h' s else server_close h' s)) ! h =
      heap (if now then destroy h' s else server_close h' s) ! h"
    using m by (rule Cons.IH)
  also have "\<dots> = heap s ! h" unfolding close_step_heap using n by simp
  finally show ?case by simp
qed

lemma close_loop_listening:
  "distinct hs \<Longrightarrow> h \<in> set hs \<Longrightarrow> h < length (heap s) \<Longrightarrow>
   heap (close_loop now hs s) ! h = node_close (heap s ! h)"
proof (induction hs arbitrary: s)
  case Nil
  then show ?case by simp
next
  case (Cons h' hs)
  let ?s = "if now then destroy h' s else server_close h' s"
  have hp: "heap ?s = (heap s)[h' := node_close (heap s ! h')]" by (rule close_step_heap)
  show ?case
  proof (cases "h = h'")
    case True
    then have "h \<notin> set hs" using Cons.prems(1) by simp
    then have "heap (close_loop now hs ?s) ! h = heap ?s ! h" by (rule close_loop_other)
    also have "\<dots> = node_close (heap s ! h)" using True Cons.prems(3) by (simp add: hp)
    finally show ?thesis by simp
  next
    case False
    then have m: "h \<in> set hs" using Cons.prems(2) by simp
    have d: "distinct hs" using Cons.prems(1) by simp
    have l: "h < length (heap ?s)" using Cons.prems(3) by (simp add: hp)
    have "heap (close_loop now hs ?s) ! h = node_close (heap ?s ! h)"
      using d m l by (rule Cons.IH)
    also have "heap ?s ! h = heap s ! h" using False by (simp add: hp)
    finally show ?thesis by simp
  qed
qed

lemma close_listening:
  assumes "distinct (server s)" and "h \<in> set (server s)" and "h < length (heap s)"
  shows "heap (close now s) ! h = node_close (heap s ! h)"
proof -
  have "heap (close_loop now (server s) (s\<lparr>portHttp := None, portHttps := None\<rparr>)) ! h =
      node_close (heap (s\<lparr>portHttp := None, portHttps := None\<rparr>) ! h)"
    using assms by (intro close_loop_listening) simp_all
  then show ?thesis by (simp add: close_heap)
qed

lemma later_fire:
  assumes s: "\<forall>h'\<in>set (server t). N \<le> h'" and n: "N \<le> length (heap t)" and h: "h < N"
  shows "(\<forall>h'\<in>set (server (fire ev t)). N \<le> h') \<and> N \<le> length (heap (fire ev t)) \<and>
    listening_at_close (heap (fire ev t) ! h) = listening_at_close (heap t ! h)"
proof -
  have len: "N \<le> length (heap (fire ev t))" using n fire_heap_length [of t ev] by simp
  show ?thesis
  proof (cases "is_callback ev")
    case True
    have a: "server (fire ev t) = server t" using True by (rule fire_callback_frame)
    have "listening_at_close (heap t ! h) = listening_at_close (heap t ! h)" by simp
    with True have "listening_at_close (heap (fire ev t) ! h) = listening_at_close (heap t ! h)"
      by (rule fire_callback_pres [where P = "\<lambda>v. listening_at_close v = listening_at_close (heap t ! h)"])
        simp_all
    then show ?thesis using s len a by simp
  next
    case False
    show ?thesis
    proof (cases ev)
      case (Call_listen https http)
      have "listening_at_close (heap (fire ev t) ! h) = listening_at_close (heap t ! h)"
        using n h by (simp add: Call_listen listen_heap nth_append)
      moreover have "\<forall>h'\<in>set (server (fire ev t)). N \<le> h'"
        using s n by (auto simp: Call_listen listen_server)
      ultimately show ?thesis using len by simp
    next
      case (Call_close now)
      have "h \<notin> set (server t)" using s h by auto
      then have "heap (close_loop now (server t) (t\<lparr>portHttp := None, portHttps := None\<rparr>)) ! h =
          heap (t\<lparr>portHttp := None, portHttps := None\<rparr>) ! h"
        by (intro close_loop_other) simp
      then have "listening_at_close (heap (fire ev t) ! h) = listening_at_close (heap t ! h)"
        by (simp add: Call_close close_heap)
      then show ?thesis using len by (simp add: Call_close)
    qed (use False in simp_all)
  qed
qed

lemma later_run:
  "run evs t = Some t' \<Longrightarrow> \<forall>h'\<in>set (server t). N \<le> h' \<Longrightarrow> N \<le> length (heap t) \<Longrightarrow> h < N \<Longrightarrow>
   listening_at_close (heap t' ! h) = listening_at_close (heap t ! h)"
proof (induction evs arbitrary: t)
  case Nil
  then show ?case by simp
next
  case (Cons ev evs)
  from Cons.prems(1) have run: "run evs (fire ev t) = Some t'" by (simp split: if_splits)
  note F = later_fire [OF Cons.prems(2) Cons.prems(3) Cons.prems(4), of ev]
  have "listening_at_close (heap t' ! h) = listening_at_close (heap (fire ev t) ! h)"
    using run F [THEN conjunct1] F [THEN conjunct2, THEN conjunct1] Cons.prems(4)
    by (rule Cons.IH)
  then show ?case using F [THEN conjunct2, THEN conjunct2] by simp
qed

lemma close_error_not_running:
  assumes wf: "well_formed s" and d: "distinct (server s)"
    and run: "run evs (close now s) = Some s'"
    and m: "CloseCallback (length (closes s)) i (Some e) \<in> set evs"
  shows "i < length (server s) \<and> \<not> running (heap s ! (server s ! i)) \<and> e = not_running_error"
proof -
  let ?k = "length (closes s)"
  from m obtain a b where evs: "evs = a @ CloseCallback ?k i (Some e) # b"
    by (auto simp: in_set_conv_decomp)
  from run obtain u where u: "run a (close now s) = Some u"
    and en: "enabled (CloseCallback ?k i (Some e)) u"
    by (auto simp: evs run_append split: if_splits)
  note D = close_invD [OF close_inv_close [OF u]]
  have i: "i < length (server s)" using en D(3) by simp
  have e: "e = not_running_error" using en by simp
  let ?h = "server s ! i"
  have hm: "?h \<in> set (server s)" using i by simp
  have hl: "?h < length (heap s)" using well_formedD(1) [OF wf hm] .
  have l: "listening_at_close (heap u ! ?h) \<noteq> Some True" using en by (simp add: D(2))
  have "listening_at_close (heap u ! ?h) = listening_at_close (heap (close now s) ! ?h)"
    using u by (rule later_run [where N = "length (heap s)"]) (simp_all add: hl close_heap)
  also have "\<dots> = listening_at_close (node_close (heap s ! ?h))"
    using close_listening [OF d hm hl] by simp
  finally have "\<not> running (heap s ! ?h)" using l by (auto simp: node_close_def)
  then show ?thesis using i e by simp
qed

lemma close_errors_mem:
  "close_errors k evs \<noteq> [] \<Longrightarrow> \<exists>i e. CloseCallback k i (Some e) \<in> set evs"
  by (induction k evs rule: close_errors.induct) (auto split: if_splits)




section \<open>Closing\<close>

lemmas closing_invD =
  closing_inv_def [THEN iffD1, THEN conjunct1]
  closing_inv_def [THEN iffD1, THEN conjunct2, THEN conjunct1]
  closing_inv_def [THEN iffD1, THEN conjunct2, THEN conjunct2, THEN conjunct1]
  closing_inv_def [THEN iffD1, THEN conjunct2, THEN conjunct2, THEN conjunct2, THEN conjunct1]
  closing_inv_def [THEN iffD1, THEN conjunct2, THEN conjunct2, THEN conjunct2, THEN conjunct2,
    THEN conjunct1]
  closing_inv_def [THEN iffD1, THEN conjunct2, THEN conjunct2, THEN conjunct2, THEN conjunct2,
    THEN conjunct2]

lemma no_open_no_entry:
  assumes "well_formed t" and "h < length (heap t)" and "open_sockets (heap t ! h) = []"
  shows "connections (heap t ! h) = []"
proof (rule ccontr)
  assume "connections (heap t ! h) \<noteq> []"
  then obtain kc where kc: "kc \<in> set (connections (heap t ! h))"
    by (cases "connections (heap t ! h)") auto
  have "entry_ok t h kc" by (rule well_formedD(3) [OF assms(1,2) kc])
  then show False using assms(3) by (simp add: entry_ok_def)
qed

lemma quiet_preserved:
  assumes "is_callback ev" and "enabled ev t"
    and "h < length (heap t)" and "closed (heap t ! h)"
    and "connections (heap t ! h) = []" and "open_sockets (heap t ! h) = []"
  shows "connections (heap (fire ev t) ! h) = [] \<and> open_sockets (heap (fire ev t) ! h) = []"
proof (cases ev)
  case (ListenCallback k r err)
  have "connections (heap (listen_callback k r err t) ! h) = connections (heap t ! h)"
    unfolding listen_callback_heap
    by (cases "srv_of r (listens t ! k)")
      (simp_all add: nth_update_field [where P = connections and f = "\<lambda>v. v\<lparr>bound := True\<rparr>"])
  moreover have "open_sockets (heap (listen_callback k r err t) ! h) = open_sockets (heap t ! h)"
    unfolding listen_callback_heap
    by (cases "srv_of r (listens t ! k)")
      (simp_all add: nth_update_field [where P = open_sockets and f = "\<lambda>v. v\<lparr>bound := True\<rparr>"])
  ultimately show ?thesis using assms(5,6) by (simp add: ListenCallback)
next
  case (Connection h0 a p)
  then have "running (heap t ! h0)" using assms(2) by simp
  then have "h0 \<noteq> h" using assms(4) by (auto simp: running_def)
  then show ?thesis using assms(5,6) by (simp add: Connection connection_heap)
next
  case (SocketClose c)
  show ?thesis
  proof (cases "accepted_by (sockets t ! c) = h")
    case True
    then show ?thesis using assms(3,5,6) by (simp add: SocketClose socket_close_heap)
  next
    case False
    then show ?thesis using assms(5,6) by (simp add: SocketClose socket_close_heap)
  qed
next
  case (ServerError h0 e)
  have "connections (heap (server_error h0 e t) ! h) = connections (heap t ! h)"
    unfolding server_error_simps by (rule nth_update_field [where P = connections]) simp
  moreover have "open_sockets (heap (server_error h0 e t) ! h) = open_sockets (heap t ! h)"
    unfolding server_error_simps by (rule nth_update_field [where P = open_sockets]) simp
  ultimately show ?thesis using assms(5,6) by (simp add: ServerError del: server_error_simps(5))
qed (use assms in simp_all)

lemma closing_inv_fire:
  assumes inv: "closing_inv k hs t" and cb: "is_callback ev" and en: "enabled ev t"
  shows "closing_inv k hs (fire ev t)"
proof -
  let ?t = "fire ev t"
  let ?op = "closes t ! k"
  note D = closing_invD [OF inv]
  have len: "length (heap ?t) = length (heap t)" by (rule fire_callback_heap_length [OF cb])
  have c1: "well_formed ?t" by (rule well_formed_fire [OF D(1) en])
  have c2: "k < length (closes ?t)" by (rule fire_closes_length [OF D(2)])
  have c5: "\<forall>h\<in>set hs. h < length (heap ?t) \<longrightarrow> closed (heap ?t ! h)"
    using D(5) by (simp add: len fire_callback_closed [OF cb])
  have still: "hs ! i < length (heap ?t) \<and>
      connections (heap ?t ! (hs ! i)) = [] \<and> open_sockets (heap ?t ! (hs ! i)) = []"
    if i: "i < length hs" and r: "is_resolved (promises ?op ! i)" for i
  proof -
    from D(6) i r have v: "hs ! i < length (heap t)"
      and e: "connections (heap t ! (hs ! i)) = []" "open_sockets (heap t ! (hs ! i)) = []"
      by blast+
    have "closed (heap t ! (hs ! i))" using D(5) v i by simp
    then show ?thesis using quiet_preserved [OF cb en v _ e] v by (simp add: len)
  qed
  show ?thesis
  proof (cases "close_cb_of k ev")
    case False
    have same: "closes ?t ! k = ?op" by (rule fire_closes_other [OF D(2) False])
    have c6: "\<forall>i<length hs. is_resolved (promises ?op ! i) \<longrightarrow>
       hs ! i < length (heap ?t) \<and>
       connections (heap ?t ! (hs ! i)) = [] \<and> open_sockets (heap ?t ! (hs ! i)) = []"
      using still by blast
    show ?thesis
      unfolding closing_inv_def same
      by (intro conjI c1 c2 D(3) D(4) c5 c6)
  next
    case True
    then obtain i' err where ev: "ev = CloseCallback k i' err" by (cases ev) simp_all
    define p where "p = (case err of Some e \<Rightarrow> Rejected e | None \<Rightarrow> Resolved (srvs ?op ! i'))"
    have new: "closes ?t ! k = ?op\<lparr>promises := (promises ?op)[i' := p],
        close_result := on_settled p ((promises ?op)[i' := p]) (close_result ?op)\<rparr>"
      unfolding ev fire.simps p_def by (rule close_callback_same [OF D(2)])
    have n3: "srvs (closes ?t ! k) = hs" unfolding new by (simp add: D(3))
    have n4: "length (promises (closes ?t ! k)) = length hs" unfolding new by (simp add: D(4))
    have n6: "promises (closes ?t ! k) = (promises ?op)[i' := p]" unfolding new by simp
    have hp: "heap ?t = heap t" by (simp add: ev)
    from en have i': "i' < length (promises ?op)"
      and v: "srvs ?op ! i' < length (heap t)"
      and o: "open_sockets (heap t ! (srvs ?op ! i')) = []"
      by (simp_all add: ev)
    have c6: "\<forall>i<length hs. is_resolved ((promises ?op)[i' := p] ! i) \<longrightarrow>
       hs ! i < length (heap ?t) \<and>
       connections (heap ?t ! (hs ! i)) = [] \<and> open_sockets (heap ?t ! (hs ! i)) = []"
    proof (intro allI impI)
      fix i assume i: "i < length hs" and r: "is_resolved ((promises ?op)[i' := p] ! i)"
      show "hs ! i < length (heap ?t) \<and>
       connections (heap ?t ! (hs ! i)) = [] \<and> open_sockets (heap ?t ! (hs ! i)) = []"
      proof (cases "i = i'")
        case False
        then have "is_resolved (promises ?op ! i)" using r by simp
        then show ?thesis by (rule still [OF i])
      next
        case True
        then have "is_resolved p" using r i' by simp
        have op: "open_sockets (heap t ! (hs ! i)) = []" using o True by (simp add: D(3))
        have vi: "hs ! i < length (heap t)" using v True by (simp add: D(3))
        have "connections (heap t ! (hs ! i)) = []"
          by (rule no_open_no_entry [OF D(1) vi op])
        then show ?thesis using vi op by (simp add: hp)
      qed
    qed
    have n4': "length ((promises ?op)[i' := p]) = length hs" by (simp add: D(4))
    show ?thesis
      unfolding closing_inv_def n3 n6
      by (intro conjI c1 c2 refl n4' c5 c6)
  qed
qed

lemma closing_inv_run:
  "run evs t = Some s' \<Longrightarrow> \<forall>ev\<in>set evs. is_callback ev \<Longrightarrow> closing_inv k hs t \<Longrightarrow>
   closing_inv k hs s'"
proof (induction evs arbitrary: t)
  case Nil
  then show ?case by simp
next
  case (Cons ev evs)
  from Cons.prems have en: "enabled ev t" and r: "run evs (fire ev t) = Some s'"
    and c: "is_callback ev" and cs: "\<forall>ev\<in>set evs. is_callback ev"
    by (auto split: if_splits)
  show ?case
    by (rule Cons.IH [OF r cs closing_inv_fire [OF Cons.prems(3) c en]])
qed

lemma closing_inv_close:
  assumes "well_formed s"
  shows "closing_inv (length (closes s)) (server s) (close now s)"
proof -
  have a: "well_formed (close now s)" by (rule well_formed_close [OF assms])
  have b: "\<forall>h\<in>set (server s). h < length (heap (close now s)) \<longrightarrow> closed (heap (close now s) ! h)"
    using close_closes_all by simp
  show ?thesis
    unfolding closing_inv_def using a b by simp
qed

lemma closing_inv_resolved:
  assumes inv: "closing_inv k hs t" and ci: "close_inv k hs evs t"
    and r: "close_result (closes t ! k) = Resolved vs" and h: "h \<in> set hs"
  shows "connections (heap t ! h) = [] \<and> open_sockets (heap t ! h) = []"
proof -
  note D = close_invD [OF ci]
  from r D(7) have rv: "resolved_values (promises (closes t ! k)) = Some vs"
    by (simp split: list.splits option.splits)
  from h obtain i where i: "i < length hs" and hi: "hs ! i = h"
    by (auto simp: in_set_conv_nth)
  have "promises (closes t ! k) ! i = Resolved (vs ! i)"
    using rv i by (simp add: resolved_values_Some_iff D(3))
  then have "is_resolved (promises (closes t ! k) ! i)" by simp
  then show ?thesis using closing_invD(6) [OF inv] i hi by blast
qed

section \<open>Sockets while the server closes\<close>

lemma open_socket_stays:
  assumes "is_callback ev" and "ev \<noteq> SocketClose c"
    and "c \<in> set (open_sockets (heap t ! h))"
  shows "c \<in> set (open_sockets (heap (fire ev t) ! h))"
proof (cases ev)
  case (ListenCallback k r err)
  have "open_sockets (heap (listen_callback k r err t) ! h) = open_sockets (heap t ! h)"
    unfolding listen_callback_heap
    by (cases "srv_of r (listens t ! k)")
      (simp_all add: nth_update_field [where P = open_sockets and f = "\<lambda>v. v\<lparr>bound := True\<rparr>"])
  then show ?thesis using assms(3) by (simp add: ListenCallback)
next
  case (Connection h0 a p)
  show ?thesis
    unfolding Connection fire.simps connection_heap
    using assms(3)
    by (rule nth_update_pres [where P = "\<lambda>v. c \<in> set (open_sockets v)"
          and f = "\<lambda>v. v\<lparr>connections := AList.update
              (conn_key \<lparr>remoteAddress = a, remotePort = p, status = Open, accepted_by = h0\<rparr>)
              (length (sockets t)) (connections v),
            open_sockets := open_sockets v @ [length (sockets t)]\<rparr>"])
      simp
next
  case (SocketClose c')
  then have n: "c' \<noteq> c" using assms(2) by simp
  show ?thesis
    unfolding SocketClose fire.simps socket_close_heap
    using assms(3)
    by (rule nth_update_pres [where P = "\<lambda>v. c \<in> set (open_sockets v)"
          and f = "\<lambda>v. v\<lparr>connections := AList.delete (conn_key (sockets t ! c')) (connections v),
            open_sockets := removeAll c' (open_sockets v)\<rparr>"])
      (simp add: n [symmetric])
next
  case (ServerError h0 e)
  have "open_sockets (heap (server_error h0 e t) ! h) = open_sockets (heap t ! h)"
    unfolding server_error_simps by (rule nth_update_field [where P = open_sockets]) simp
  then show ?thesis using assms(3) by (simp add: ServerError del: server_error_simps(5))
qed (use assms in simp_all)

lemma open_socket_leaves:
  "run evs t = Some t' \<Longrightarrow> \<forall>ev\<in>set evs. is_callback ev \<Longrightarrow>
   c \<in> set (open_sockets (heap t ! h)) \<Longrightarrow> c \<notin> set (open_sockets (heap t' ! h)) \<Longrightarrow>
   SocketClose c \<in> set evs"
proof (induction evs arbitrary: t)
  case Nil
  then show ?case by simp
next
  case (Cons ev evs)
  from Cons.prems(1) have run: "run evs (fire ev t) = Some t'" by (simp split: if_splits)
  from Cons.prems(2) have cb: "is_callback ev" and cs: "\<forall>ev\<in>set evs. is_callback ev"
    by simp_all
  show ?case
  proof (cases "ev = SocketClose c")
    case True
    then show ?thesis by simp
  next
    case False
    have "c \<in> set (open_sockets (heap (fire ev t) ! h))"
      using cb False Cons.prems(3) by (rule open_socket_stays)
    then have "SocketClose c \<in> set evs"
      using run cs Cons.prems(4) by (intro Cons.IH)
    then show ?thesis by simp
  qed
qed

lemma close_loop_keeps_destroyed:
  "status (sockets s ! c) = Destroyed \<Longrightarrow> status (sockets (close_loop now hs s) ! c) = Destroyed"
proof (induction hs arbitrary: s)
  case Nil
  then show ?case by simp
next
  case (Cons h hs)
  have "status (sockets (if now then destroy h s else server_close h s) ! c) = Destroyed"
    using Cons.prems by (simp add: destroy_def fold_socket_destroy_keeps)
  then show ?case unfolding close_loop.simps by (rule Cons.IH)
qed

lemma close_loop_destroys:
  "h \<in> set hs \<Longrightarrow> c \<in> snd ` set (connections (heap s ! h)) \<Longrightarrow> c < length (sockets s) \<Longrightarrow>
   status (sockets s ! c) \<noteq> Closed \<Longrightarrow>
   status (sockets (close_loop True hs s) ! c) = Destroyed"
proof (induction hs arbitrary: s)
  case Nil
  then show ?case by simp
next
  case (Cons h' hs)
  show ?case
  proof (cases "h = h'")
    case True
    have "c \<in> set (map snd (connections (heap s ! h)))" using Cons.prems(2) by simp
    then have "status (sockets (fold socket_destroy (map snd (connections (heap s ! h)))
        (server_close h s)) ! c) = Destroyed"
      using Cons.prems(3,4) by (intro fold_socket_destroy_destroys) simp_all
    then have "status (sockets (destroy h' s) ! c) = Destroyed"
      using True by (simp add: destroy_def)
    then show ?thesis by (simp add: close_loop_keeps_destroyed)
  next
    case False
    then have m: "h \<in> set hs" using Cons.prems(1) by simp
    have k: "connections (heap (destroy h' s) ! h) = connections (heap s ! h)"
      unfolding destroy_simps by (rule nth_update_field [where P = connections]) simp
    have "status (sockets (close_loop True hs (destroy h' s)) ! c) = Destroyed"
      using m Cons.prems(2,3,4)
      by (intro Cons.IH) (simp_all add: k destroy_sockets del: destroy_simps(5))
    then show ?thesis by simp
  qed
qed

lemma close_obs_SocketDestroy:
  "h \<in> set hs \<Longrightarrow> c \<in> snd ` set (connections (hp ! h)) \<Longrightarrow>
   SocketDestroy c \<in> set (close_obs True hp hs)"
  by (induction hs) auto

lemma close_loop_graceful: "sockets (close_loop False hs s) = sockets s"
  by (induction hs arbitrary: s) simp_all

lemma close_obs_graceful: "close_obs False hp hs = map CloseCall hs"
  by (induction hs) simp_all

lemma debug_call_no_destroy: "SocketDestroy c \<notin> set (debug_call d level args)"
proof (cases d)
  case None
  then show ?thesis by (simp add: debug_call_def)
next
  case (Some f)
  then show ?thesis by (cases f) (simp_all add: debug_call_def)
qed

lemma fire_callback_no_destroy:
  assumes "is_callback ev" and "enabled ev t" and "SocketDestroy c \<in> set (trace (fire ev t))"
  shows "SocketDestroy c \<in> set (trace t)"
proof (cases ev)
  case (ListenCallback k r err)
  then have "k < length (listens t)" using assms(2) by simp
  then show ?thesis
    using assms(3) debug_call_no_destroy
    by (auto simp: ListenCallback listen_callback_trace split: if_splits)
qed (use assms in simp_all)

lemma fire_callback_status:
  assumes "is_callback ev" and "c < length (sockets t)"
    and "status (sockets (fire ev t) ! c) = Destroyed"
  shows "status (sockets t ! c) = Destroyed"
proof (cases ev)
  case (Connection h a p)
  then show ?thesis using assms(2,3) by (simp add: nth_append)
next
  case (SocketClose c')
  then show ?thesis using assms(2,3) by (cases "c' = c") simp_all
qed (use assms in simp_all)

lemma fire_callback_sockets_length:
  "is_callback ev \<Longrightarrow> length (sockets t) \<le> length (sockets (fire ev t))"
  by (cases ev) simp_all

lemma run_callbacks_no_destroy:
  "run evs t = Some t' \<Longrightarrow> \<forall>ev\<in>set evs. is_callback ev \<Longrightarrow>
   (SocketDestroy c \<in> set (trace t') \<longrightarrow> SocketDestroy c \<in> set (trace t)) \<and>
   (c < length (sockets t) \<longrightarrow> status (sockets t' ! c) = Destroyed \<longrightarrow>
      status (sockets t ! c) = Destroyed)"
proof (induction evs arbitrary: t)
  case Nil
  then show ?case by simp
next
  case (Cons ev evs)
  from Cons.prems(1) have en: "enabled ev t" and run: "run evs (fire ev t) = Some t'"
    by (simp_all split: if_splits)
  from Cons.prems(2) have cb: "is_callback ev" and cs: "\<forall>ev\<in>set evs. is_callback ev"
    by simp_all
  note IH = Cons.IH [OF run cs]
  have a: "SocketDestroy c \<in> set (trace t') \<longrightarrow> SocketDestroy c \<in> set (trace t)"
    using IH [THEN conjunct1] fire_callback_no_destroy [OF cb en] by blast
  have b: "c < length (sockets t) \<longrightarrow> status (sockets t' ! c) = Destroyed \<longrightarrow>
      status (sockets t ! c) = Destroyed"
  proof (intro impI)
    assume c: "c < length (sockets t)" and d: "status (sockets t' ! c) = Destroyed"
    have "c < length (sockets (fire ev t))"
      using c fire_callback_sockets_length [OF cb, of t] by simp
    then have "status (sockets (fire ev t) ! c) = Destroyed"
      using IH [THEN conjunct2] d by blast
    with cb c show "status (sockets t ! c) = Destroyed" by (rule fire_callback_status)
  qed
  show ?case by (intro conjI a b)
qed



end
